theory Spec2Isabelle
  imports Complex_Main "HOL-Library.Log_Nat"
begin

section \<open>Tiled and padded prediction (bioimageio/core/prediction.py)\<close>

text \<open>
  A shallow embedding of the tiling, padding and stitching functions of
  \<^verbatim>\<open>prediction.py\<close>. Python integers are \<^typ>\<open>int\<close> (\<open>//\<close> and \<open>%\<close> are floor
  division and its remainder, which is what \<open>div\<close> and \<open>mod\<close> on \<^typ>\<open>int\<close> are),
  exceptions are values of the sum type \<open>error + 'a\<close>, dictionaries that are only looked up are
  maps, and generators and loops are lists and recursion over them.

  Axis labels are the single characters of a bioimage.io axes string, so an axis is a
  \<^typ>\<open>char\<close> and the test \<^verbatim>\<open>ax in "xyz"\<close> is membership in the set of the three letters.
\<close>

subsection \<open>Exceptions\<close>

datatype error =
    AssertionError
  | RuntimeError
  | ValueError
  | KeyError
  | NotImplementedError
  | ZeroDivisionError
  | TypeError
  | IndexError
  | AttributeError
  | OverflowError

definition bind :: "error + 'a \<Rightarrow> ('a \<Rightarrow> error + 'b) \<Rightarrow> error + 'b" where
  "bind m f = (case m of Inl e \<Rightarrow> Inl e | Inr x \<Rightarrow> f x)"

text \<open>A list comprehension whose body may raise stops at the first element that raises.\<close>

fun mapM :: "('a \<Rightarrow> error + 'b) \<Rightarrow> 'a list \<Rightarrow> error + 'b list" where
  "mapM f [] = Inr []"
| "mapM f (x # xs) = bind (f x) (\<lambda>y. bind (mapM f xs) (\<lambda>ys. Inr (y # ys)))"

text \<open>\<^verbatim>\<open>d[k]\<close> on a dictionary raises \<^verbatim>\<open>KeyError\<close> for a missing key.\<close>

definition getitem :: "('k \<rightharpoonup> 'v) \<Rightarrow> 'k \<Rightarrow> error + 'v" where
  "getitem d k = (case d k of None \<Rightarrow> Inl KeyError | Some v \<Rightarrow> Inr v)"

subsection \<open>Floating-point numbers\<close>

text \<open>
  A Python \<^verbatim>\<open>float\<close> is an IEEE 754 binary64 number: a finite one is the rational number it
  stands for, and there are the two infinities and the value that is not a number. The
  two zeros are one value here; they differ only under operations that the module does
  not use on these numbers (division, the sign functions, printing).

  The result of an operation is the exact result rounded to the nearest number of the
  format, to the one with the even significand when two are equally near. For \<open>x > 0\<close>,
  \<open>floor_log2 x\<close> is the exponent \<open>e\<close> with \<open>2 ^ e \<le> x < 2 ^ (e + 1)\<close>. The numbers of the
  format with this exponent are the multiples \<open>m * 2 ^ (e - 52)\<close> of \<open>2 ^ (e - 52)\<close>, those
  below \<open>2 ^ (- 1022)\<close> are the multiples of \<open>2 ^ (- 1074)\<close>. Rounding gives a multiple with
  \<open>m \<le> 2 ^ 53\<close>; the result is infinite when this multiple is \<open>2 ^ 1024\<close> or more, which is
  when \<open>e \<ge> 1024\<close>, or \<open>e = 1023\<close> and \<open>m = 2 ^ 53\<close>.
\<close>

datatype pyfloat = Finite rat | PosInf | NegInf | NaN

definition floor_log2 :: "rat \<Rightarrow> int" where
  "floor_log2 x =
     (case quotient_of x of (p, q) \<Rightarrow>
        let e = bitlen p - bitlen q in if 2 powi e \<le> x then e else e - 1)"

definition round_half_even :: "rat \<Rightarrow> int" where
  "round_half_even y =
     (let f = \<lfloor>y\<rfloor>; r = y - of_int f
      in if r < 1 / 2 then f else if 1 / 2 < r then f + 1 else if even f then f else f + 1)"

definition round_double :: "rat \<Rightarrow> pyfloat" where
  "round_double x =
     (if x = 0 then Finite 0
      else
        let e = max (floor_log2 \<bar>x\<bar>) (- 1022);
            q = 2 powi (e - 52);
            m = round_half_even (\<bar>x\<bar> / q)
        in if 1024 \<le> e \<or> (e = 1023 \<and> m = 2 ^ 53) then (if 0 < x then PosInf else NegInf)
           else Finite (sgn x * of_int m * q))"

text \<open>\<^verbatim>\<open>a * b\<close> and \<^verbatim>\<open>a + b\<close> on floats.\<close>

fun float_mul :: "pyfloat \<Rightarrow> pyfloat \<Rightarrow> pyfloat" where
  "float_mul (Finite x) (Finite y) = round_double (x * y)"
| "float_mul NaN _ = NaN"
| "float_mul _ NaN = NaN"
| "float_mul (Finite x) PosInf = (if x = 0 then NaN else if 0 < x then PosInf else NegInf)"
| "float_mul (Finite x) NegInf = (if x = 0 then NaN else if 0 < x then NegInf else PosInf)"
| "float_mul PosInf (Finite y) = (if y = 0 then NaN else if 0 < y then PosInf else NegInf)"
| "float_mul NegInf (Finite y) = (if y = 0 then NaN else if 0 < y then NegInf else PosInf)"
| "float_mul PosInf PosInf = PosInf"
| "float_mul NegInf NegInf = PosInf"
| "float_mul PosInf NegInf = NegInf"
| "float_mul NegInf PosInf = NegInf"

fun float_add :: "pyfloat \<Rightarrow> pyfloat \<Rightarrow> pyfloat" where
  "float_add (Finite x) (Finite y) = round_double (x + y)"
| "float_add NaN _ = NaN"
| "float_add _ NaN = NaN"
| "float_add PosInf NegInf = NaN"
| "float_add NegInf PosInf = NaN"
| "float_add PosInf _ = PosInf"
| "float_add NegInf _ = NegInf"
| "float_add _ PosInf = PosInf"
| "float_add _ NegInf = NegInf"

text \<open>
  An integer operand of a float operation is converted first; an integer beyond the
  range of the format raises \<^verbatim>\<open>OverflowError\<close>.
\<close>

definition float_of_int :: "int \<Rightarrow> error + pyfloat" where
  "float_of_int n = (case round_double (of_int n) of Finite r \<Rightarrow> Inr (Finite r) | _ \<Rightarrow> Inl OverflowError)"

text \<open>
  \<^verbatim>\<open>int(x)\<close> cuts the fraction of a finite float off, and raises for an infinity
  (\<^verbatim>\<open>OverflowError\<close>) and for the value that is not a number (\<^verbatim>\<open>ValueError\<close>).
\<close>

definition py_int :: "rat \<Rightarrow> int" where
  "py_int r = (if 0 \<le> r then \<lfloor>r\<rfloor> else \<lceil>r\<rceil>)"

definition float_to_int :: "pyfloat \<Rightarrow> error + int" where
  "float_to_int x =
     (case x of Finite r \<Rightarrow> Inr (py_int r) | NaN \<Rightarrow> Inl ValueError | _ \<Rightarrow> Inl OverflowError)"

subsection \<open>Slices and ranges\<close>

text \<open>\<^verbatim>\<open>slice(start, stop)\<close>; \<^verbatim>\<open>None\<close> is \<^term>\<open>None\<close>, so \<^verbatim>\<open>slice(None)\<close> is \<open>Slice None None\<close>.\<close>

datatype slice = Slice (start: "int option") (stop: "int option")

text \<open>\<^verbatim>\<open>range(n)\<close>: the integers from 0 up to but excluding \<open>n\<close>, none when \<open>n \<le> 0\<close>.\<close>

definition py_range :: "int \<Rightarrow> int list" where
  "py_range n = [0..n - 1]"

definition spatial :: "char \<Rightarrow> bool" where
  "spatial ax \<longleftrightarrow> ax \<in> set ''xyz''"

subsection \<open>Tile windows: \<^verbatim>\<open>_get_tiling\<close>\<close>

type_synonym tile_dict = "char \<rightharpoonup> slice"

type_synonym tile = "tile_dict \<times> tile_dict \<times> tile_dict"

text \<open>
  One entry of \<^verbatim>\<open>ranges\<close>:
  \<^verbatim>\<open>range(sh // tsh if sh % tsh == 0 else sh // tsh + 1)\<close>; division by a zero tile extent
  raises.
\<close>

definition tile_range :: "int \<times> int \<Rightarrow> error + int list" where
  "tile_range p = (case p of (sh, tsh) \<Rightarrow>
     if tsh = 0 then Inl ZeroDivisionError
     else Inr (py_range (if sh mod tsh = 0 then sh div tsh else sh div tsh + 1)))"

text \<open>
  The slice of \<^verbatim>\<open>local_tile\<close> for one axis, read back from the two dictionaries as the source does:
  \<^verbatim>\<open>slice(inner.start - outer.start, -(outer.stop - inner.stop) if outer.stop != inner.stop else None)\<close>.
  The dictionaries hold integer bounds for every spatial axis, so the last equation is
  never reached from \<open>get_tiling\<close>.
\<close>

fun local_slice :: "slice option \<Rightarrow> slice option \<Rightarrow> slice" where
  "local_slice (Some (Slice (Some istart) (Some istop))) (Some (Slice (Some ostart) (Some ostop))) =
     Slice (Some (istart - ostart)) (if ostop \<noteq> istop then Some (- (ostop - istop)) else None)"
| "local_slice _ _ = Slice None None"

text \<open>
  The body of the loop over \<^verbatim>\<open>start_points\<close>. A dictionary comprehension over zipped lists
  stores the entries from left to right, which is \<open>m(ks [\<mapsto>] vs)\<close>.
\<close>

definition make_tile :: "char list \<Rightarrow> int list \<Rightarrow> int list \<Rightarrow> int list \<Rightarrow> int list \<Rightarrow> tile" where
  "make_tile spatial_axes shape' tile_shape' halo' start_point =
     (let positions = map (\<lambda>(sp, tsh). sp * tsh) (zip start_point tile_shape');
          outer_tile = (Map.empty(spatial_axes [\<mapsto>]
              map (\<lambda>(pos, tsh, sh, ha). Slice (Some (max (pos - ha) 0)) (Some (min (pos + tsh + ha) sh)))
                (zip positions (zip tile_shape' (zip shape' halo')))))
            (CHR ''b'' \<mapsto> Slice None None, CHR ''c'' \<mapsto> Slice None None);
          inner_tile = (Map.empty(spatial_axes [\<mapsto>]
              map (\<lambda>(pos, tsh, sh). Slice (Some pos) (Some (min (pos + tsh) sh)))
                (zip positions (zip tile_shape' shape'))))
            (CHR ''b'' \<mapsto> Slice None None, CHR ''c'' \<mapsto> Slice None None);
          local_tile = (Map.empty(spatial_axes [\<mapsto>]
              map (\<lambda>ax. local_slice (inner_tile ax) (outer_tile ax)) spatial_axes))
            (CHR ''b'' \<mapsto> Slice None None, CHR ''c'' \<mapsto> Slice None None)
      in (outer_tile, inner_tile, local_tile))"

text \<open>\<^verbatim>\<open>[sh for sh, ax in zip(shape, input_axes) if ax in "xyz"]\<close>\<close>

definition spatial_shape :: "int list \<Rightarrow> char list \<Rightarrow> int list" where
  "spatial_shape shape input_axes = map fst (filter (\<lambda>(sh, ax). spatial ax) (zip shape input_axes))"

text \<open>
  The generator as the list of the tiles it yields, in order; \<^verbatim>\<open>itertools.product\<close> is
  \<^const>\<open>product_lists\<close> (the last axis varies fastest). The exceptions of the body are
  raised when the first tile is requested.
\<close>

definition get_tiling ::
  "int list \<Rightarrow> (char \<rightharpoonup> int) \<Rightarrow> (char \<rightharpoonup> int) \<Rightarrow> char list \<Rightarrow> error + tile list" where
  "get_tiling shape tile_shape halo input_axes =
     (if length shape \<noteq> length input_axes then Inl AssertionError
      else
        let shape' = spatial_shape shape input_axes;
            spatial_axes = filter spatial input_axes
        in bind (mapM (getitem tile_shape) spatial_axes) (\<lambda>tile_shape'.
           bind (mapM (getitem halo) spatial_axes) (\<lambda>halo'.
           bind (mapM tile_range (zip shape' tile_shape')) (\<lambda>ranges.
           Inr (map (make_tile spatial_axes shape' tile_shape' halo') (product_lists ranges))))))"

subsection \<open>Reading the windows of a tile\<close>

definition outer_of :: "tile \<Rightarrow> tile_dict" where
  "outer_of t = fst t"

definition inner_of :: "tile \<Rightarrow> tile_dict" where
  "inner_of t = fst (snd t)"

definition local_of :: "tile \<Rightarrow> tile_dict" where
  "local_of t = snd (snd t)"

text \<open>
  A window with integer bounds \<open>a\<close> and \<open>b\<close> holds the positions from \<open>a\<close> up to but excluding
  \<open>b\<close>; \<open>covers axs t p\<close> says that the inner window of the tile \<open>t\<close> holds the position
  \<open>p\<close>, given by one coordinate for each of the axes \<open>axs\<close>.
\<close>

definition in_slice :: "slice option \<Rightarrow> int \<Rightarrow> bool" where
  "in_slice w i = (case w of Some (Slice (Some a) (Some b)) \<Rightarrow> a \<le> i \<and> i < b | _ \<Rightarrow> False)"

definition covers :: "char list \<Rightarrow> tile \<Rightarrow> int list \<Rightarrow> bool" where
  "covers axs t p \<longleftrightarrow> list_all2 (\<lambda>ax i. in_slice (inner_of t ax) i) axs p"

subsection \<open>Arrays: the numpy and xarray operations the module uses\<close>

text \<open>
  A \<^verbatim>\<open>numpy.ndarray\<close> is its shape, its elements in row-major order and its element type
  (the \<^verbatim>\<open>dtype\<close>, kept as a name). The conversion of values between element types is outside
  the model: the elements of every array of one run have the one type \<open>'a\<close>.
\<close>

record 'a ndarray =
  shape :: "nat list"
  data :: "'a list"
  dtype :: string

text \<open>All index vectors of a shape, in row-major order, and the offset of one of them.\<close>

definition indices :: "nat list \<Rightarrow> nat list list" where
  "indices sh = product_lists (map (\<lambda>n. [0..<n]) sh)"

fun ravel :: "nat list \<Rightarrow> nat list \<Rightarrow> nat" where
  "ravel (n # sh) (i # idx) = i * prod_list sh + ravel sh idx"
| "ravel _ _ = 0"

definition item :: "'a ndarray \<Rightarrow> nat list \<Rightarrow> 'a" where
  "item a idx = data a ! ravel (shape a) idx"

text \<open>The array of a given shape whose element at \<open>idx\<close> is \<open>f idx\<close>.\<close>

definition tabulate :: "nat list \<Rightarrow> string \<Rightarrow> (nat list \<Rightarrow> 'a) \<Rightarrow> 'a ndarray" where
  "tabulate sh dt f = \<lparr>shape = sh, data = map f (indices sh), dtype = dt\<rparr>"

definition well_formed :: "'a ndarray \<Rightarrow> bool" where
  "well_formed a \<longleftrightarrow> length (data a) = prod_list (shape a)"

text \<open>\<^verbatim>\<open>np.zeros(shape, dtype)\<close>; a negative extent raises.\<close>

definition np_zeros :: "int list \<Rightarrow> string \<Rightarrow> error + ('a::zero) ndarray" where
  "np_zeros sh dt =
     (if list_ex (\<lambda>n. n < 0) sh then Inl ValueError
      else Inr (tabulate (map nat sh) dt (\<lambda>idx. 0)))"

text \<open>
  \<^verbatim>\<open>slice.indices(n)\<close> for a slice without step: where the slice starts on an axis of extent
  \<open>n\<close> and how many positions it selects. A negative bound counts from the end, and every
  bound is clipped to the axis.
\<close>

definition slice_start :: "slice \<Rightarrow> nat \<Rightarrow> int" where
  "slice_start s n =
     (case start s of None \<Rightarrow> 0
      | Some i \<Rightarrow> if i < 0 then max (i + int n) 0 else min i (int n))"

definition slice_stop :: "slice \<Rightarrow> nat \<Rightarrow> int" where
  "slice_stop s n =
     (case stop s of None \<Rightarrow> int n
      | Some j \<Rightarrow> if j < 0 then max (j + int n) 0 else min j (int n))"

definition slice_offset :: "slice \<Rightarrow> nat \<Rightarrow> nat" where
  "slice_offset s n = nat (slice_start s n)"

definition slice_length :: "slice \<Rightarrow> nat \<Rightarrow> nat" where
  "slice_length s n = nat (slice_stop s n - slice_start s n)"

text \<open>
  Basic indexing \<^verbatim>\<open>a[s0, s1, ...]\<close> with a tuple of slices: more slices than axes raise
  \<^verbatim>\<open>IndexError\<close>, fewer select the remaining axes whole.
\<close>

definition full_key :: "slice list \<Rightarrow> nat \<Rightarrow> slice list" where
  "full_key key n = key @ replicate (n - length key) (Slice None None)"

definition nd_getitem :: "'a ndarray \<Rightarrow> slice list \<Rightarrow> error + 'a ndarray" where
  "nd_getitem a key =
     (if length (shape a) < length key then Inl IndexError
      else
        let k = full_key key (length (shape a));
            offs = map2 slice_offset k (shape a);
            lens = map2 slice_length k (shape a)
        in Inr (tabulate lens (dtype a) (\<lambda>idx. item a (map2 (+) offs idx))))"

text \<open>
  Assignment \<^verbatim>\<open>a[s0, s1, ...] = v\<close>. The value is broadcast to the selected region as numpy
  does: its shape is aligned with the region's at the last axis, and an extent of 1
  is repeated; any other difference raises \<^verbatim>\<open>ValueError\<close>.
\<close>

definition broadcastable :: "nat list \<Rightarrow> nat list \<Rightarrow> bool" where
  "broadcastable vs rs \<longleftrightarrow>
     length vs \<le> length rs \<and>
     list_all (\<lambda>(v, r). v = r \<or> v = 1) (zip vs (drop (length rs - length vs) rs))"

definition broadcast_index :: "nat list \<Rightarrow> nat list \<Rightarrow> nat list" where
  "broadcast_index vs idx =
     map2 (\<lambda>v i. if v = 1 then 0 else i) vs (drop (length idx - length vs) idx)"

definition in_region :: "nat list \<Rightarrow> nat list \<Rightarrow> nat list \<Rightarrow> bool" where
  "in_region offs lens idx \<longleftrightarrow>
     list_all (\<lambda>(i, off, len). off \<le> i \<and> i < off + len) (zip idx (zip offs lens))"

definition nd_setitem :: "'a ndarray \<Rightarrow> slice list \<Rightarrow> 'a ndarray \<Rightarrow> error + 'a ndarray" where
  "nd_setitem a key v =
     (if length (shape a) < length key then Inl IndexError
      else
        let k = full_key key (length (shape a));
            offs = map2 slice_offset k (shape a);
            lens = map2 slice_length k (shape a)
        in if \<not> broadcastable (shape v) lens then Inl ValueError
           else Inr (tabulate (shape a) (dtype a)
                  (\<lambda>idx. if in_region offs lens idx
                     then item v (broadcast_index (shape v) (map2 (-) idx offs))
                     else item a idx)))"

text \<open>
  \<^verbatim>\<open>np.pad(a, pad_width, mode="symmetric")\<close>. The list of pairs must be non-empty (an empty
  list is not of integral type), without a negative width, and have one pair per axis
  or a single pair for all axes. Symmetric padding mirrors the data about its edges,
  the edge element included, as often as the width needs; an axis without elements
  cannot be extended. Position \<open>j\<close> of the extended axis, counted from the first original
  element, shows the element \<open>mirror n j\<close> of the \<open>n\<close> original ones.
\<close>

definition mirror :: "nat \<Rightarrow> int \<Rightarrow> nat" where
  "mirror n j =
     (let m = j mod (2 * int n) in if m < int n then nat m else nat (2 * int n - 1 - m))"

definition np_pad :: "'a ndarray \<Rightarrow> (int \<times> int) list \<Rightarrow> error + 'a ndarray" where
  "np_pad a pad_width =
     (if pad_width = [] then Inl TypeError
      else if list_ex (\<lambda>(pre, post). pre < 0 \<or> post < 0) pad_width then Inl ValueError
      else if length pad_width \<noteq> length (shape a) \<and> length pad_width \<noteq> 1 then Inl ValueError
      else
        let pw = (if length pad_width = length (shape a) then pad_width
                  else replicate (length (shape a)) (hd pad_width))
        in if list_ex (\<lambda>(n, pre, post). n = 0 \<and> (pre \<noteq> 0 \<or> post \<noteq> 0)) (zip (shape a) pw)
           then Inl ValueError
           else Inr (tabulate
                  (map (\<lambda>(n, pre, post). nat (int n + pre + post)) (zip (shape a) pw))
                  (dtype a)
                  (\<lambda>idx. item a
                     (map (\<lambda>(i, n, pre, post). mirror n (int i - pre))
                        (zip idx (zip (shape a) pw))))))"

text \<open>
  An \<^verbatim>\<open>xarray.DataArray\<close>: an array with one label per axis. \<^verbatim>\<open>xr.DataArray(data, dims=...)\<close>
  raises when the number of labels is not the number of axes.
\<close>

record 'a DataArray =
  dims :: "char list"
  array :: "'a ndarray"

definition DataArray :: "'a ndarray \<Rightarrow> char list \<Rightarrow> error + 'a DataArray" where
  "DataArray a ds =
     (if length ds \<noteq> length (shape a) then Inl ValueError
      else Inr \<lparr>dims = ds, array = a\<rparr>)"

text \<open>
  Indexing with a dictionary from labels to slices, \<^verbatim>\<open>da[{...}]\<close>: a key that is no label of
  the array raises \<^verbatim>\<open>ValueError\<close>, a label without key is selected whole.
\<close>

definition key_of_dict :: "tile_dict \<Rightarrow> char list \<Rightarrow> slice list" where
  "key_of_dict d ds = map (\<lambda>ax. case d ax of None \<Rightarrow> Slice None None | Some s \<Rightarrow> s) ds"

definition xr_getitem :: "'a DataArray \<Rightarrow> tile_dict \<Rightarrow> error + 'a DataArray" where
  "xr_getitem da d =
     (if \<not> dom d \<subseteq> set (dims da) then Inl ValueError
      else bind (nd_getitem (array da) (key_of_dict d (dims da)))
             (\<lambda>a. Inr (da\<lparr>array := a\<rparr>)))"

text \<open>Assignment \<^verbatim>\<open>da[{...}] = value\<close>; the value's elements are taken by position.\<close>

definition xr_setitem :: "'a DataArray \<Rightarrow> tile_dict \<Rightarrow> 'a DataArray \<Rightarrow> error + 'a DataArray" where
  "xr_setitem da d v =
     (if \<not> dom d \<subseteq> set (dims da) then Inl ValueError
      else bind (nd_setitem (array da) (key_of_dict d (dims da)) (array v))
             (\<lambda>a. Inr (da\<lparr>array := a\<rparr>)))"

text \<open>\<^verbatim>\<open>len(da)\<close>: the extent of the first axis; an array without axes has no length.\<close>

definition len_DataArray :: "'a DataArray \<Rightarrow> error + nat" where
  "len_DataArray da = (case shape (array da) of [] \<Rightarrow> Inl TypeError | n # _ \<Rightarrow> Inr n)"

subsection \<open>Padding: \<^verbatim>\<open>_pad\<close> and \<^verbatim>\<open>_apply_crop\<close>\<close>

text \<open>
  A padding dictionary: the value under \<^verbatim>\<open>"mode"\<close>, when the key is there, and the targets under
  the axis labels, as an association list read with \<^const>\<open>map_of\<close>. Its \<^verbatim>\<open>len\<close> without the
  mode is the number of different labels.
\<close>

record padding =
  mode :: "string option"
  targets :: "(char \<times> int) list"

definition dict_len :: "('k \<times> 'v) list \<Rightarrow> nat" where
  "dict_len d = length (remdups (map fst d))"

text \<open>
  The argument \<^verbatim>\<open>pad_right\<close>: one truth value for all axes, or a list with one entry per axis
  whose entries are truth values or \<^verbatim>\<open>None\<close>.
\<close>

datatype pad_right = Broadcast bool | PerAxis "bool option list"

text \<open>The width for one spatial axis of extent \<open>dlen\<close> and target \<open>pad_to\<close>.\<close>

definition pad_amount :: "string \<Rightarrow> int \<Rightarrow> int \<Rightarrow> error + int" where
  "pad_amount m pad_to dlen =
     (if m = ''dynamic'' then
        (if pad_to = 0 then Inl ZeroDivisionError
         else let r = dlen mod pad_to in Inr (if r = 0 then 0 else pad_to - r))
      else if pad_to < dlen then Inl RuntimeError
      else Inr (pad_to - dlen))"

text \<open>
  The body of the loop over \<^verbatim>\<open>zip(axes, im.shape, pad_right)\<close>: the entry it appends to
  \<^verbatim>\<open>pad_width\<close> and the slice it stores in \<^verbatim>\<open>crop\<close>. An entry of \<^verbatim>\<open>pad_right\<close> selects the right
  side when it is true.
\<close>

definition pad_axis ::
  "string \<Rightarrow> (char \<times> int) list \<Rightarrow> char \<times> nat \<times> bool option \<Rightarrow> error + ((int \<times> int) \<times> slice)" where
  "pad_axis m padding' z = (case z of (ax, dlen, pr) \<Rightarrow>
     if spatial ax then
       bind (getitem (map_of padding') ax) (\<lambda>pad_to.
       bind (pad_amount m pad_to (int dlen)) (\<lambda>pwidth.
       Inr (if pr = Some True then (0, pwidth) else (pwidth, 0),
            if pr = Some True then Slice (Some 0) (Some (int dlen)) else Slice (Some pwidth) None)))
     else Inr ((0, 0), Slice None None))"

text \<open>The loop, with \<^verbatim>\<open>pad_width\<close> and \<^verbatim>\<open>crop\<close> as they are so far.\<close>

fun pad_loop ::
  "string \<Rightarrow> (char \<times> int) list \<Rightarrow> (char \<times> nat \<times> bool option) list \<Rightarrow>
   (int \<times> int) list \<Rightarrow> tile_dict \<Rightarrow> error + ((int \<times> int) list \<times> tile_dict)" where
  "pad_loop m padding' [] pad_width crop = Inr (pad_width, crop)"
| "pad_loop m padding' (z # rest) pad_width crop =
     bind (pad_axis m padding' z) (\<lambda>(w, c).
     pad_loop m padding' rest (pad_width @ [w]) (crop(fst z \<mapsto> c)))"

definition pad ::
  "'a ndarray \<Rightarrow> char list \<Rightarrow> padding \<Rightarrow> pad_right \<Rightarrow> error + ('a ndarray \<times> tile_dict)" where
  "pad im axes p pr =
     (if length (shape im) \<noteq> length axes then Inl AssertionError
      else
        let padding' = targets p;
            m = (case mode p of None \<Rightarrow> ''dynamic'' | Some v \<Rightarrow> v)
        in if m \<noteq> ''dynamic'' \<and> m \<noteq> ''fixed'' then Inl AssertionError
           else if dict_len padding' \<noteq> (if CHR ''z'' \<in> set axes then 3 else 2)
             then Inl AssertionError
           else
             let pr' = (case pr of Broadcast b \<Rightarrow> replicate (length axes) (Some b)
                        | PerAxis l \<Rightarrow> l)
             in bind (pad_loop m padding' (zip axes (zip (shape im) pr')) [] Map.empty)
                  (\<lambda>(pad_width, crop).
                bind (np_pad im pad_width) (\<lambda>im'. Inr (im', crop))))"

text \<open>\<^verbatim>\<open>data[tuple(crop[ax] for ax in data.dims)]\<close>\<close>

definition apply_crop :: "'a DataArray \<Rightarrow> tile_dict \<Rightarrow> error + 'a DataArray" where
  "apply_crop da crop =
     bind (mapM (getitem crop) (dims da)) (\<lambda>key.
     bind (nd_getitem (array da) key) (\<lambda>a. Inr (da\<lparr>array := a\<rparr>)))"

subsection \<open>The prediction pipeline and its tensor descriptions\<close>

text \<open>
  The shape of an input is a list of extents or a minimum with a step; the shape of an
  output is a list or follows a reference input by a scale and an offset, which are
  floating-point numbers.
\<close>

datatype input_shape = InputShape "int list" | ParametrizedInputShape "int list" "int list"

datatype output_shape = OutputShape "int list" | ImplicitOutputShape string "pyfloat list" "pyfloat list"

record InputTensor =
  in_name :: string
  in_axes :: "char list"
  in_shape :: input_shape

record OutputTensor =
  out_name :: string
  out_axes :: "char list"
  out_shape :: output_shape
  out_halo :: "int list option"
  out_data_type :: string

record 'a PredictionPipeline =
  input_specs :: "InputTensor list"
  output_specs :: "OutputTensor list"
  forward :: "'a DataArray list \<Rightarrow> 'a DataArray list"

text \<open>An argument that is one array or a list of arrays, and its \<^verbatim>\<open>len\<close>.\<close>

datatype 'x inputs = Single 'x | Multiple "'x list"

definition as_list :: "'x inputs \<Rightarrow> 'x list" where
  "as_list i = (case i of Single x \<Rightarrow> [x] | Multiple xs \<Rightarrow> xs)"

definition len_inputs :: "'a DataArray inputs \<Rightarrow> error + nat" where
  "len_inputs i = (case i of Single da \<Rightarrow> len_DataArray da | Multiple xs \<Rightarrow> Inr (length xs))"

text \<open>Truth of a setting that is \<^verbatim>\<open>None\<close>, a truth value or a dictionary.\<close>

datatype 'd setting = Unset | Flag bool | Dict 'd

subsection \<open>\<^verbatim>\<open>predict\<close>, \<^verbatim>\<open>_parse_padding\<close>, \<^verbatim>\<open>predict_with_padding\<close>\<close>

text \<open>
  \<^verbatim>\<open>predict\<close> gets arrays with or without labels and labels each with the axes of its input
  description, so the model takes the arrays alone.
\<close>

definition predict :: "'a PredictionPipeline \<Rightarrow> 'a ndarray inputs \<Rightarrow> error + 'a DataArray list" where
  "predict pp ins =
     (let xs = as_list ins
      in if length xs \<noteq> length (input_specs pp) then Inl AssertionError
         else bind (mapM (\<lambda>(ipt, ipt_spec). DataArray ipt (in_axes ipt_spec)) (zip xs (input_specs pp)))
                (\<lambda>tagged_data. Inr (forward pp tagged_data)))"

definition padding_truth :: "padding setting \<Rightarrow> bool" where
  "padding_truth p =
     (case p of Unset \<Rightarrow> False | Flag b \<Rightarrow> b | Dict d \<Rightarrow> mode d \<noteq> None \<or> targets d \<noteq> [])"

definition check_padding :: "char list \<Rightarrow> padding \<Rightarrow> error + padding" where
  "check_padding axes p =
     (if list_all (\<lambda>k. k \<in> set axes) (map fst (targets p)) then Inr p else Inl AssertionError)"

definition parse_padding :: "padding setting \<Rightarrow> InputTensor list \<Rightarrow> error + padding option" where
  "parse_padding p specs =
     (case p of
        Unset \<Rightarrow> Inr None
      | _ \<Rightarrow>
        if 1 < length specs then Inl NotImplementedError
        else (case specs of
            [] \<Rightarrow> Inl IndexError
          | input_spec # _ \<Rightarrow>
            (case p of
               Dict d \<Rightarrow> bind (check_padding (in_axes input_spec) d) (\<lambda>d. Inr (Some d))
             | Flag True \<Rightarrow>
                 bind (check_padding (in_axes input_spec)
                   (case in_shape input_spec of
                      InputShape sh \<Rightarrow>
                        \<lparr>mode = Some ''fixed'',
                         targets = rev (filter (\<lambda>(ax, sh). spatial ax) (zip (in_axes input_spec) sh))\<rparr>
                    | ParametrizedInputShape mn st \<Rightarrow>
                        \<lparr>mode = Some ''dynamic'',
                         targets = rev (filter (\<lambda>(ax, st). spatial ax) (zip (in_axes input_spec) st))\<rparr>))
                   (\<lambda>d. Inr (Some d))
             | _ \<Rightarrow> Inr None)))"

text \<open>
  The first two statements of \<^verbatim>\<open>predict_with_padding\<close> run before a single array is put in a
  list, so for a single array \<^verbatim>\<open>len(inputs)\<close> is the extent of its first axis.
\<close>

definition predict_with_padding ::
  "'a PredictionPipeline \<Rightarrow> 'a DataArray inputs \<Rightarrow> padding setting \<Rightarrow> pad_right \<Rightarrow>
   error + 'a DataArray list" where
  "predict_with_padding pp ins p pr =
     (if \<not> padding_truth p then Inl ValueError
      else bind (len_inputs ins) (\<lambda>n.
        if n \<noteq> length (input_specs pp) then Inl AssertionError
        else bind (parse_padding p (input_specs pp)) (\<lambda>parsed.
          if 1 \<noteq> length (input_specs pp) then Inl AssertionError
          else bind (mapM (\<lambda>(inp, spec, q).
                       case q of None \<Rightarrow> Inl AttributeError
                       | Some d \<Rightarrow> pad (array inp) (in_axes spec) d pr)
                     (zip (as_list ins) (zip (input_specs pp) [parsed])))
                 (\<lambda>padded.
               if padded = [] then Inl ValueError
               else bind (predict pp (Multiple (map fst padded))) (\<lambda>result.
                 mapM (\<lambda>(res, crop). apply_crop res crop) (zip result (map snd padded)))))))"

subsection \<open>Tiled prediction: \<^verbatim>\<open>_predict_with_tiling_impl\<close>\<close>

text \<open>
  \<^verbatim>\<open>load_tile\<close>: the part of the input under the outer window, and for each axis whether the
  window starts at 0 (\<^verbatim>\<open>None\<close> for an axis that is not spatial).
\<close>

definition load_tile :: "'a DataArray \<Rightarrow> tile_dict \<Rightarrow> error + ('a DataArray \<times> bool option list)" where
  "load_tile input' tile =
     bind (xr_getitem input' tile) (\<lambda>inp.
     bind (mapM (\<lambda>ax. if spatial ax
                   then bind (getitem tile ax) (\<lambda>s. Inr (Some (start s = Some 0)))
                   else Inr None) (dims input'))
       (\<lambda>pad_right. Inr (inp, pad_right)))"

text \<open>
  The padding of every tile:
  \<^verbatim>\<open>{ax: tile_shape[ax] + 2 * halo[ax] for ax in input_axes if ax in "xyz"}\<close> with mode
  \<^verbatim>\<open>"fixed"\<close>.
\<close>

definition tile_padding :: "(char \<rightharpoonup> int) \<Rightarrow> (char \<rightharpoonup> int) \<Rightarrow> char list \<Rightarrow> error + padding" where
  "tile_padding tile_shape halo input_axes =
     bind (mapM (\<lambda>ax. bind (getitem tile_shape ax) (\<lambda>tsh. bind (getitem halo ax) (\<lambda>ha.
                   Inr (ax, tsh + 2 * ha))))
             (filter spatial input_axes))
       (\<lambda>kvs. Inr \<lparr>mode = Some ''fixed'', targets = rev kvs\<rparr>)"

text \<open>The body of the loop over the tiles, and the loop; the output buffer is passed on.\<close>

definition tile_step ::
  "'a PredictionPipeline \<Rightarrow> 'a DataArray \<Rightarrow> padding \<Rightarrow> 'a DataArray \<Rightarrow> tile \<Rightarrow> error + 'a DataArray" where
  "tile_step pp input' p output t =
     (case t of (outer_tile, inner_tile, local_tile) \<Rightarrow>
        bind (load_tile input' outer_tile) (\<lambda>(inp, pad_right).
        bind (predict_with_padding pp (Single inp) (Dict p) (PerAxis pad_right)) (\<lambda>out.
          if length out \<noteq> 1 then Inl AssertionError
          else bind (xr_getitem (hd out) local_tile) (\<lambda>v. xr_setitem output inner_tile v))))"

fun tile_loop ::
  "'a PredictionPipeline \<Rightarrow> 'a DataArray \<Rightarrow> padding \<Rightarrow> 'a DataArray \<Rightarrow> tile list \<Rightarrow> error + 'a DataArray" where
  "tile_loop pp input' p output [] = Inr output"
| "tile_loop pp input' p output (t # ts) =
     bind (tile_step pp input' p output t) (\<lambda>output'. tile_loop pp input' p output' ts)"

text \<open>
  The function changes \<^verbatim>\<open>outputs[0]\<close> in place and returns nothing; the model returns the
  list of outputs after the run. The progress bar of \<^verbatim>\<open>verbose=True\<close> is left out. The tile
  generator starts to run at the loop, after the padding was computed.
\<close>

definition predict_with_tiling_impl ::
  "'a PredictionPipeline \<Rightarrow> 'a DataArray list \<Rightarrow> 'a DataArray list \<Rightarrow>
   (char \<rightharpoonup> int) list \<Rightarrow> (char \<rightharpoonup> int) list \<Rightarrow> error + 'a DataArray list" where
  "predict_with_tiling_impl pp ins outputs tile_shapes halos =
     (if 1 < length ins then Inl NotImplementedError
      else if 1 < length outputs then Inl NotImplementedError
      else if length tile_shapes \<noteq> length outputs then Inl AssertionError
      else if length halos \<noteq> length outputs then Inl AssertionError
      else (case (ins, outputs, tile_shapes, halos) of
          (input' # _, output # _, tile_shape # _, halo # _) \<Rightarrow>
            bind (tile_padding tile_shape halo (dims input')) (\<lambda>p.
            bind (get_tiling (map int (shape (array input'))) tile_shape halo (dims input')) (\<lambda>tiles.
            bind (tile_loop pp input' p output tiles) (\<lambda>output'. Inr [output'])))
        | _ \<Rightarrow> Inl IndexError))"

subsection \<open>\<^verbatim>\<open>_determine_shape\<close>, \<^verbatim>\<open>_parse_tiling\<close>, \<^verbatim>\<open>predict_with_tiling\<close>\<close>

text \<open>\<^verbatim>\<open>while len_ax < min_len: len_ax += step_ax\<close>, entered with a positive step only.\<close>

function grow :: "int \<Rightarrow> int \<Rightarrow> int \<Rightarrow> int" where
  "grow min_len step_ax len_ax =
     (if 0 < step_ax \<and> len_ax < min_len then grow min_len step_ax (len_ax + step_ax) else len_ax)"
  by pat_completeness auto
termination
  by (relation "measure (\<lambda>(min_len, step_ax, len_ax). nat (min_len - len_ax))") auto

definition determine_shape :: "int list \<Rightarrow> int list \<Rightarrow> char list \<Rightarrow> int list" where
  "determine_shape min_shape step axes =
     (let min_len = (if CHR ''z'' \<in> set axes then 64 else 256)
      in map (\<lambda>(ax, min_ax, step_ax).
                if spatial ax \<and> 0 < step_ax then grow min_len step_ax min_ax else min_ax)
           (zip axes (zip min_shape step)))"

text \<open>
  A tiling dictionary: the dictionaries under \<^verbatim>\<open>"halo"\<close> and \<^verbatim>\<open>"tile"\<close>, each when its key is
  there.
\<close>

record tiling =
  halo :: "(char \<rightharpoonup> int) option"
  tile :: "(char \<rightharpoonup> int) option"

definition tiling_truth :: "tiling setting \<Rightarrow> bool" where
  "tiling_truth t =
     (case t of Unset \<Rightarrow> False | Flag b \<Rightarrow> b | Dict d \<Rightarrow> halo d \<noteq> None \<or> tile d \<noteq> None)"

text \<open>\<^verbatim>\<open>d.get(ax, 0)\<close>\<close>

definition get0 :: "(char \<rightharpoonup> int) \<Rightarrow> char \<Rightarrow> int" where
  "get0 d ax = (case d ax of None \<Rightarrow> 0 | Some v \<Rightarrow> v)"

definition check_tiling :: "char list \<Rightarrow> tiling \<Rightarrow> error + tiling" where
  "check_tiling axes t =
     (case (halo t, tile t) of
        (Some ha, Some ti) \<Rightarrow>
          if list_all (\<lambda>ax. 0 < get0 ha ax) (filter spatial axes)
             \<and> list_all (\<lambda>ax. 0 < get0 ti ax) (filter spatial axes)
          then Inr t else Inl AssertionError
      | _ \<Rightarrow> Inl AssertionError)"

definition parse_tiling ::
  "tiling setting \<Rightarrow> InputTensor list \<Rightarrow> OutputTensor list \<Rightarrow> error + tiling option" where
  "parse_tiling t ispecs ospecs =
     (case t of
        Unset \<Rightarrow> Inr None
      | _ \<Rightarrow>
        if 1 < length ispecs then Inl NotImplementedError
        else if 1 < length ospecs then Inl NotImplementedError
        else (case (ispecs, ospecs) of
            (input_spec # _, output_spec # _) \<Rightarrow>
              (let axes = in_axes input_spec in
               case t of
                 Dict d \<Rightarrow> bind (check_tiling axes d) (\<lambda>d. Inr (Some d))
               | Flag True \<Rightarrow>
                   (let sh = (case in_shape input_spec of
                                InputShape l \<Rightarrow> l
                              | ParametrizedInputShape mn st \<Rightarrow> determine_shape mn st axes)
                    in if length sh \<noteq> length axes then Inl AssertionError
                       else (case out_halo output_spec of
                           None \<Rightarrow> Inl ValueError
                         | Some ha \<Rightarrow>
                             bind (check_tiling axes
                               \<lparr>halo = Some (Map.empty(map fst (filter (\<lambda>(ax, h). spatial ax) (zip axes ha))
                                               [\<mapsto>] map snd (filter (\<lambda>(ax, h). spatial ax) (zip axes ha)))),
                                tile = Some (Map.empty(map fst (filter (\<lambda>(ax, n). spatial ax) (zip axes sh))
                                               [\<mapsto>] map snd (filter (\<lambda>(ax, n). spatial ax) (zip axes sh))))\<rparr>)
                               (\<lambda>d. Inr (Some d))))
               | _ \<Rightarrow> Inr None)
          | _ \<Rightarrow> Inl IndexError))"

text \<open>
  \<^verbatim>\<open>named_inputs\<close>, an ordered dictionary: a name that is there keeps its place and gets the
  new value.
\<close>

fun od_set :: "('k \<times> 'v) list \<Rightarrow> 'k \<Rightarrow> 'v \<Rightarrow> ('k \<times> 'v) list" where
  "od_set [] k v = [(k, v)]"
| "od_set ((k', v') # d) k v = (if k' = k then (k, v) # d else (k', v') # od_set d k v)"

text \<open>
  The buffer that \<^verbatim>\<open>predict_with_tiling\<close> allocates for one output description. The extent
  of an implicit shape on an axis is
  \<^verbatim>\<open>int(scale[ax] * ref_input_shape[ax] + 2 * offset[ax])\<close>, evaluated from left to right in
  floating-point arithmetic: the extent of the reference input is converted to a float
  (the factor 2 is the float 2.0).
\<close>

definition allocate_output ::
  "(string \<times> 'a DataArray) list \<Rightarrow> OutputTensor \<Rightarrow> error + ('a::zero) DataArray" where
  "allocate_output named_inputs output_spec =
     bind (case out_shape output_spec of
             ImplicitOutputShape reference_tensor sc off \<Rightarrow>
               (let scale = Map.empty(out_axes output_spec [\<mapsto>] sc);
                    offset = Map.empty(out_axes output_spec [\<mapsto>] off)
                in if list_ex (\<lambda>ax. spatial ax \<and> scale ax \<noteq> None \<and> scale ax \<noteq> Some (Finite 1))
                        (out_axes output_spec)
                      \<or> list_ex (\<lambda>ax. spatial ax \<and> offset ax \<noteq> None \<and> offset ax \<noteq> Some (Finite 0))
                           (out_axes output_spec)
                   then Inl NotImplementedError
                   else bind (getitem (map_of named_inputs) reference_tensor) (\<lambda>ref_input.
                     let ref_input_shape = Map.empty(dims ref_input [\<mapsto>] shape (array ref_input))
                     in mapM (\<lambda>ax. bind (getitem scale ax) (\<lambda>s.
                                    bind (getitem ref_input_shape ax) (\<lambda>n.
                                    bind (float_of_int (int n)) (\<lambda>fn.
                                    bind (getitem offset ax) (\<lambda>d.
                                    float_to_int (float_add (float_mul s fn) (float_mul (Finite 2) d)))))))
                          (out_axes output_spec)))
           | OutputShape l \<Rightarrow> Inr l)
       (\<lambda>output_shape.
     bind (np_zeros output_shape (out_data_type output_spec)) (\<lambda>z.
     DataArray z (out_axes output_spec)))"

definition predict_with_tiling ::
  "('a::zero) PredictionPipeline \<Rightarrow> 'a DataArray inputs \<Rightarrow> tiling setting \<Rightarrow>
   'a DataArray list option \<Rightarrow> error + 'a DataArray list" where
  "predict_with_tiling pp ins t outputs =
     (if \<not> tiling_truth t then Inl ValueError
      else bind (len_inputs ins) (\<lambda>n.
        if n \<noteq> length (input_specs pp) then Inl AssertionError
        else bind (parse_tiling t (input_specs pp) (output_specs pp)) (\<lambda>parsed.
          bind (mapM (\<lambda>(ipt_data, ipt_spec).
                    bind (DataArray (array ipt_data) (in_axes ipt_spec)) (\<lambda>da.
                    Inr (in_name ipt_spec, da)))
                  (zip (as_list ins) (input_specs pp))) (\<lambda>kvs.
          let named_inputs = foldl (\<lambda>d (k, v). od_set d k v) [] kvs
          in bind (case outputs of
                 None \<Rightarrow> mapM (allocate_output named_inputs) (output_specs pp)
               | Some outs \<Rightarrow>
                   if length outs \<noteq> length (output_specs pp) then Inl ValueError
                   else if length outs \<noteq> length (as_list ins) then Inl NotImplementedError
                   else (case (input_specs pp, as_list ins, output_specs pp, outs) of
                       (ispec # _, i0 # _, ospec # _, o0 # _) \<Rightarrow>
                         if map snd (zip (in_axes ispec) (shape (array i0)))
                            \<noteq> map snd (zip (out_axes ospec) (shape (array o0)))
                         then Inl NotImplementedError else Inr outs
                     | _ \<Rightarrow> Inl IndexError))
             (\<lambda>outs.
           case parsed of
             None \<Rightarrow> Inl TypeError
           | Some d \<Rightarrow>
               (case (tile d, halo d) of
                  (Some ti, Some ha) \<Rightarrow>
                    predict_with_tiling_impl pp (map snd named_inputs) outs [ti] [ha]
                | _ \<Rightarrow> Inl KeyError))))))"

subsection \<open>\<^verbatim>\<open>_predict_sample\<close>\<close>

text \<open>
  Reading and writing image files is the work of \<^verbatim>\<open>_load_image\<close> and \<^verbatim>\<open>_save_image\<close>. They are
  parameters here: each takes the state of the files and returns it, so a run that
  leaves the state as it was has read and written nothing that the state records.
\<close>

record ('a, 'w) file_io =
  load_image :: "string \<Rightarrow> char list \<Rightarrow> 'w \<Rightarrow> (error + 'a DataArray) \<times> 'w"
  save_image :: "string \<Rightarrow> 'a DataArray \<Rightarrow> 'w \<Rightarrow> (error + unit) \<times> 'w"

fun load_tensors ::
  "('a, 'w) file_io \<Rightarrow> (string \<times> InputTensor) list \<Rightarrow> 'w \<Rightarrow> (error + 'a DataArray list) \<times> 'w" where
  "load_tensors io [] w = (Inr [], w)"
| "load_tensors io ((s, sspec) # rest) w =
     (case load_image io s (in_axes sspec) w of
        (Inl e, w') \<Rightarrow> (Inl e, w')
      | (Inr im, w') \<Rightarrow>
          (case load_tensors io rest w' of
             (Inl e, w'') \<Rightarrow> (Inl e, w'')
           | (Inr ims, w'') \<Rightarrow> (Inr (im # ims), w'')))"

fun save_images ::
  "('a, 'w) file_io \<Rightarrow> ('a DataArray \<times> string) list \<Rightarrow> 'w \<Rightarrow> (error + unit) \<times> 'w" where
  "save_images io [] w = (Inr (), w)"
| "save_images io ((res, out) # rest) w =
     (case save_image io out res w of
        (Inl e, w') \<Rightarrow> (Inl e, w')
      | (Inr u, w') \<Rightarrow> save_images io rest w')"

definition predict_sample ::
  "('a, 'w) file_io \<Rightarrow> ('a::zero) PredictionPipeline \<Rightarrow> string list \<Rightarrow> string list \<Rightarrow>
   padding setting \<Rightarrow> tiling setting \<Rightarrow> 'w \<Rightarrow> (error + unit) \<times> 'w" where
  "predict_sample io pp ins outputs p t w =
     (if padding_truth p \<and> tiling_truth t then (Inl ValueError, w)
      else
        (case load_tensors io (zip ins (input_specs pp)) w of
           (Inl e, w') \<Rightarrow> (Inl e, w')
         | (Inr input_data, w') \<Rightarrow>
             (case (if p \<noteq> Unset
                      then predict_with_padding pp (Multiple input_data) p (Broadcast True)
                    else if t \<noteq> Unset
                      then predict_with_tiling pp (Multiple input_data) t None
                    else predict pp (Multiple (map array input_data))) of
                Inl e \<Rightarrow> (Inl e, w')
              | Inr result \<Rightarrow>
                  if length result \<noteq> length outputs then (Inl AssertionError, w')
                  else save_images io (zip result outputs) w')))"

subsection \<open>Notions for stating the windows of a tile\<close>

text \<open>
  The spatial axes are numbered in the order of the axis labels: \<open>spatial_index ds i\<close> is the
  number of the axis at position \<open>i\<close> of the labels \<open>ds\<close> among the spatial ones. For a tile
  index vector \<open>v\<close>, tile extents \<open>tshs\<close> and halos \<open>has\<close> (one per spatial axis) and the
  shape \<open>sh\<close>, the following are the position of the tile on the axis at position \<open>i\<close> and
  the bounds of its outer and inner windows there, as the specification gives them.
\<close>

definition spatial_index :: "char list \<Rightarrow> nat \<Rightarrow> nat" where
  "spatial_index ds i = length (filter spatial (take i ds))"

definition tile_pos :: "char list \<Rightarrow> int list \<Rightarrow> int list \<Rightarrow> nat \<Rightarrow> int" where
  "tile_pos ds tshs v i = v ! spatial_index ds i * tshs ! spatial_index ds i"

definition outer_start :: "char list \<Rightarrow> int list \<Rightarrow> int list \<Rightarrow> int list \<Rightarrow> nat \<Rightarrow> int" where
  "outer_start ds tshs has v i = max (tile_pos ds tshs v i - has ! spatial_index ds i) 0"

definition outer_stop :: "char list \<Rightarrow> nat list \<Rightarrow> int list \<Rightarrow> int list \<Rightarrow> int list \<Rightarrow> nat \<Rightarrow> int" where
  "outer_stop ds sh tshs has v i =
     min (tile_pos ds tshs v i + tshs ! spatial_index ds i + has ! spatial_index ds i) (int (sh ! i))"

definition inner_stop :: "char list \<Rightarrow> nat list \<Rightarrow> int list \<Rightarrow> int list \<Rightarrow> nat \<Rightarrow> int" where
  "inner_stop ds sh tshs v i = min (tile_pos ds tshs v i + tshs ! spatial_index ds i) (int (sh ! i))"

text \<open>
  The same windows as regions of the array: the first index and the extent on every axis
  (an axis that is not spatial is covered whole).
\<close>

definition outer_offs :: "char list \<Rightarrow> int list \<Rightarrow> int list \<Rightarrow> int list \<Rightarrow> nat list" where
  "outer_offs ds tshs has v =
     map (\<lambda>i. if spatial (ds ! i) then nat (outer_start ds tshs has v i) else 0) [0..<length ds]"

definition outer_lens :: "char list \<Rightarrow> nat list \<Rightarrow> int list \<Rightarrow> int list \<Rightarrow> int list \<Rightarrow> nat list" where
  "outer_lens ds sh tshs has v =
     map (\<lambda>i. if spatial (ds ! i)
               then nat (outer_stop ds sh tshs has v i - outer_start ds tshs has v i) else sh ! i)
       [0..<length ds]"

definition inner_offs :: "char list \<Rightarrow> int list \<Rightarrow> int list \<Rightarrow> nat list" where
  "inner_offs ds tshs v =
     map (\<lambda>i. if spatial (ds ! i) then nat (tile_pos ds tshs v i) else 0) [0..<length ds]"

definition inner_lens :: "char list \<Rightarrow> nat list \<Rightarrow> int list \<Rightarrow> int list \<Rightarrow> nat list" where
  "inner_lens ds sh tshs v =
     map (\<lambda>i. if spatial (ds ! i)
               then nat (inner_stop ds sh tshs v i - tile_pos ds tshs v i) else sh ! i)
       [0..<length ds]"

text \<open>The tile index vectors of a shape: the product of the ranges of tile numbers.\<close>

definition tile_indices :: "char list \<Rightarrow> nat list \<Rightarrow> int list \<Rightarrow> int list list" where
  "tile_indices ds sh tshs =
     product_lists (map (\<lambda>(n, tsh). py_range \<lceil>real_of_int n / real_of_int tsh\<rceil>)
       (zip (spatial_shape (map int sh) ds) tshs))"

text \<open>
  The elements of an output buffer with the labels \<open>ds\<close> and the shape \<open>sh\<close> that a tile
  writes: those that the assignment \<^verbatim>\<open>output[inner_tile] = ...\<close> selects.
\<close>

definition written :: "char list \<Rightarrow> nat list \<Rightarrow> tile \<Rightarrow> nat list \<Rightarrow> bool" where
  "written ds sh t idx \<longleftrightarrow>
     in_region (map2 slice_offset (key_of_dict (inner_of t) ds) sh)
       (map2 slice_length (key_of_dict (inner_of t) ds) sh) idx"

section \<open>Properties\<close>

lemma bind_Inr [simp]: "bind (Inr x) f = f x"
  by (simp add: bind_def)

lemma bind_Inl [simp]: "bind (Inl e) f = Inl e"
  by (simp add: bind_def)

subsection \<open>Tile windows\<close>

lemma mapM_getitem:
  "map d ks = map Some vs \<Longrightarrow> mapM (getitem d) ks = Inr vs"
  by (induction ks arbitrary: vs) (auto simp: getitem_def)

lemma mapM_tile_range:
  "(\<forall>p\<in>set ps. snd p \<noteq> 0) \<Longrightarrow>
   mapM tile_range ps =
     Inr (map (\<lambda>(sh, tsh). py_range (if sh mod tsh = 0 then sh div tsh else sh div tsh + 1)) ps)"
  by (induction ps) (auto simp: tile_range_def split: prod.splits)

lemma map_upds_nth:
  "distinct ks \<Longrightarrow> length vs = length ks \<Longrightarrow> j < length ks \<Longrightarrow>
   (m(ks [\<mapsto>] vs)) (ks ! j) = Some (vs ! j)"
proof (induction ks arbitrary: vs j m)
  case Nil
  then show ?case by simp
next
  case (Cons k ks)
  then obtain v vs' where vs: "vs = v # vs'" by (cases vs) auto
  show ?case
  proof (cases j)
    case 0
    with Cons.prems vs show ?thesis by (simp add: map_upds_apply_nontin)
  next
    case (Suc j')
    with Cons.prems vs Cons.IH[of vs' j' "m(k \<mapsto> v)"] show ?thesis
      by (simp del: fun_upd_apply)
  qed
qed

lemma ceil_tiles:
  fixes sh tsh :: int
  assumes "0 < tsh"
  shows "(if sh mod tsh = 0 then sh div tsh else sh div tsh + 1) = \<lceil>real_of_int sh / real_of_int tsh\<rceil>"
  using assms by (simp add: ceiling_divide_eq_div zdiv_zminus1_eq_if)

lemma length_spatial_shape:
  "length shp = length axes \<Longrightarrow> length (spatial_shape shp axes) = length (filter spatial axes)"
  unfolding spatial_shape_def
  by (induction shp axes rule: list_induct2) auto

lemma get_tiling_eq:
  assumes len: "length shp = length input_axes"
    and ts: "map tile_shape (filter spatial input_axes) = map Some tshs"
    and hs: "map hal (filter spatial input_axes) = map Some has"
    and pos: "\<forall>t\<in>set tshs. 0 < t"
  shows "get_tiling shp tile_shape hal input_axes =
     Inr (map (make_tile (filter spatial input_axes) (spatial_shape shp input_axes) tshs has)
       (product_lists (map (\<lambda>(sh, tsh). py_range \<lceil>real_of_int sh / real_of_int tsh\<rceil>)
          (zip (spatial_shape shp input_axes) tshs))))"
proof -
  have nz: "\<forall>p\<in>set (zip (spatial_shape shp input_axes) tshs). snd p \<noteq> 0"
    using pos by (auto dest: set_zip_rightD)
  have eq: "map (\<lambda>(sh, tsh). py_range (if sh mod tsh = 0 then sh div tsh else sh div tsh + 1))
          (zip (spatial_shape shp input_axes) tshs)
      = map (\<lambda>(sh, tsh). py_range \<lceil>real_of_int sh / real_of_int tsh\<rceil>)
          (zip (spatial_shape shp input_axes) tshs)"
    using pos by (intro map_cong refl) (auto dest!: set_zip_rightD simp: ceil_tiles)
  show ?thesis
    using len by (simp add: get_tiling_def Let_def mapM_getitem[OF ts] mapM_getitem[OF hs] mapM_tile_range[OF nz] eq)
qed


lemma spatial_not_bc: "spatial ax \<Longrightarrow> ax \<noteq> CHR ''b'' \<and> ax \<noteq> CHR ''c''"
  by (auto simp: spatial_def)

lemma make_tile_windows:
  assumes d: "distinct axs" and sp: "\<forall>ax\<in>set axs. spatial ax"
    and l1: "length ext = length axs" and l2: "length tshs = length axs"
    and l3: "length has = length axs" and l4: "length v = length axs"
    and j: "j < length axs"
  shows "outer_of (make_tile axs ext tshs has v) (axs ! j) =
           Some (Slice (Some (max (v ! j * tshs ! j - has ! j) 0))
                       (Some (min (v ! j * tshs ! j + tshs ! j + has ! j) (ext ! j))))"
    and "inner_of (make_tile axs ext tshs has v) (axs ! j) =
           Some (Slice (Some (v ! j * tshs ! j)) (Some (min (v ! j * tshs ! j + tshs ! j) (ext ! j))))"
    and "local_of (make_tile axs ext tshs has v) (axs ! j) =
           Some (Slice (Some (v ! j * tshs ! j - max (v ! j * tshs ! j - has ! j) 0))
              (if min (v ! j * tshs ! j + tshs ! j + has ! j) (ext ! j)
                  \<noteq> min (v ! j * tshs ! j + tshs ! j) (ext ! j)
               then Some (- (min (v ! j * tshs ! j + tshs ! j + has ! j) (ext ! j)
                             - min (v ! j * tshs ! j + tshs ! j) (ext ! j)))
               else None))"
proof -
  have nbc: "axs ! j \<noteq> CHR ''b''" "axs ! j \<noteq> CHR ''c''"
    using sp j spatial_not_bc by (metis nth_mem)+
  show o: "outer_of (make_tile axs ext tshs has v) (axs ! j) =
           Some (Slice (Some (max (v ! j * tshs ! j - has ! j) 0))
                       (Some (min (v ! j * tshs ! j + tshs ! j + has ! j) (ext ! j))))"
    using nbc d l1 l2 l3 l4 j
    by (simp add: make_tile_def outer_of_def Let_def map_upds_nth)
  show i: "inner_of (make_tile axs ext tshs has v) (axs ! j) =
           Some (Slice (Some (v ! j * tshs ! j)) (Some (min (v ! j * tshs ! j + tshs ! j) (ext ! j))))"
    using nbc d l1 l2 l3 l4 j
    by (simp add: make_tile_def inner_of_def Let_def map_upds_nth)
  have "local_of (make_tile axs ext tshs has v) (axs ! j) =
      Some (local_slice (inner_of (make_tile axs ext tshs has v) (axs ! j))
                        (outer_of (make_tile axs ext tshs has v) (axs ! j)))"
    using nbc d j
    by (simp add: make_tile_def inner_of_def outer_of_def local_of_def Let_def map_upds_nth)
  then show "local_of (make_tile axs ext tshs has v) (axs ! j) =
           Some (Slice (Some (v ! j * tshs ! j - max (v ! j * tshs ! j - has ! j) 0))
              (if min (v ! j * tshs ! j + tshs ! j + has ! j) (ext ! j)
                  \<noteq> min (v ! j * tshs ! j + tshs ! j) (ext ! j)
               then Some (- (min (v ! j * tshs ! j + tshs ! j + has ! j) (ext ! j)
                             - min (v ! j * tshs ! j + tshs ! j) (ext ! j)))
               else None))"
    by (simp only: o i local_slice.simps)
qed


subsection \<open>The inner windows partition the positions\<close>

lemma tile_index_unique:
  fixes p sh tsh v :: int
  assumes t: "0 < tsh" and p: "p < sh"
  shows "(v * tsh \<le> p \<and> p < min (v * tsh + tsh) sh) \<longleftrightarrow> v = p div tsh"
proof
  assume a: "v * tsh \<le> p \<and> p < min (v * tsh + tsh) sh"
  have "p = tsh * v + (p - v * tsh)" by (simp add: algebra_simps)
  moreover have "0 \<le> p - v * tsh" "p - v * tsh < tsh" using a by auto
  ultimately have "p div tsh = v" by (rule int_div_pos_eq)
  then show "v = p div tsh" by simp
next
  assume v: "v = p div tsh"
  have "p = p div tsh * tsh + p mod tsh" by simp
  moreover have "0 \<le> p mod tsh" "p mod tsh < tsh" using t by simp_all
  ultimately have "p div tsh * tsh \<le> p" "p < p div tsh * tsh + tsh" by linarith+
  with v p show "v * tsh \<le> p \<and> p < min (v * tsh + tsh) sh" by simp
qed

lemma tile_index_range:
  fixes p sh tsh :: int
  assumes t: "0 < tsh" and p0: "0 \<le> p" and p: "p < sh"
  shows "0 \<le> p div tsh \<and> p div tsh \<le> \<lceil>real_of_int sh / real_of_int tsh\<rceil> - 1"
proof
  show "0 \<le> p div tsh" using t p0 by (simp add: pos_imp_zdiv_nonneg_iff)
  have "- (p + 1) = tsh * (- (p div tsh) - 1) + (tsh - 1 - p mod tsh)"
    by (simp add: algebra_simps)
  moreover have "0 \<le> tsh - 1 - p mod tsh" "tsh - 1 - p mod tsh < tsh"
    using t pos_mod_bound[of tsh p] pos_mod_sign[of tsh p] by linarith+
  ultimately have "(- (p + 1)) div tsh = - (p div tsh) - 1" by (rule int_div_pos_eq)
  moreover have "(- sh) div tsh \<le> (- (p + 1)) div tsh"
    using p t by (intro zdiv_mono1) auto
  ultimately show "p div tsh \<le> \<lceil>real_of_int sh / real_of_int tsh\<rceil> - 1"
    by (simp add: ceiling_divide_eq_div)
qed

lemma filter_unique:
  assumes "distinct xs" "x \<in> set xs" "\<forall>y\<in>set xs. P y \<longleftrightarrow> y = x"
  shows "length (filter P xs) = 1"
proof -
  have "{y. P y} \<inter> set xs = {x}" using assms by auto
  then show ?thesis using assms(1) by (simp add: distinct_length_filter)
qed


lemma length_py_range: "length (py_range n) = nat n"
  by (simp add: py_range_def)

lemma set_py_range: "set (py_range n) = {0..n - 1}"
  by (simp add: py_range_def)

lemma distinct_py_range: "distinct (py_range n)"
  by (simp add: py_range_def)

lemma in_product_lists_iff:
  "v \<in> set (product_lists xss) \<longleftrightarrow>
     length v = length xss \<and> (\<forall>j<length xss. v ! j \<in> set (xss ! j))"
  by (auto simp: product_lists_set list_all2_conv_all_nth)

text \<open>
  Claim C2. For positive tile extents the inner windows of the tiles of \<open>get_tiling\<close> hold
  every spatial position of the array exactly once: for each position, exactly one tile
  of the sequence covers it. The sequence has \<open>\<lceil>extent / tile\<rceil>\<close> tiles along each spatial axis,
  so its length is the product of these numbers.
\<close>

theorem get_tiling_partition:
  assumes len: "length shp = length input_axes" and d: "distinct input_axes"
    and ts: "map tile_shape (filter spatial input_axes) = map Some tshs"
    and hs: "map hal (filter spatial input_axes) = map Some has"
    and pos: "\<forall>t\<in>set tshs. 0 < t"
    and axs: "axs = filter spatial input_axes"
    and ext: "ext = spatial_shape shp input_axes"
  shows "\<exists>tiles. get_tiling shp tile_shape hal input_axes = Inr tiles \<and>
           length tiles =
             prod_list (map (\<lambda>(sh, tsh). nat \<lceil>real_of_int sh / real_of_int tsh\<rceil>) (zip ext tshs)) \<and>
           (\<forall>p\<in>set (product_lists (map py_range ext)).
              length (filter (\<lambda>t. covers axs t p) tiles) = 1)"
proof -
  define rs where "rs = map (\<lambda>(sh, tsh). py_range \<lceil>real_of_int sh / real_of_int tsh\<rceil>) (zip ext tshs)"
  define idx where "idx = product_lists rs"
  define mk where "mk = make_tile axs ext tshs has"
  have run: "get_tiling shp tile_shape hal input_axes = Inr (map mk idx)"
    unfolding mk_def idx_def rs_def axs ext by (rule get_tiling_eq[OF len ts hs pos])
  have l1: "length ext = length axs"
    unfolding axs ext by (rule length_spatial_shape[OF len])
  have l2: "length tshs = length axs"
    using ts unfolding axs by (metis length_map)
  have l3: "length has = length axs"
    using hs unfolding axs by (metis length_map)
  have dax: "distinct axs" and sp: "\<forall>ax\<in>set axs. spatial ax"
    using d unfolding axs by auto
  have lrs: "length rs = length axs"
    unfolding rs_def using l1 l2 by simp
  have rsj: "rs ! j = py_range \<lceil>real_of_int (ext ! j) / real_of_int (tshs ! j)\<rceil>"
    if "j < length axs" for j
    unfolding rs_def using that l1 l2 by simp
  have "map length rs = map (\<lambda>(sh, tsh). nat \<lceil>real_of_int sh / real_of_int tsh\<rceil>) (zip ext tshs)"
    unfolding rs_def by (auto simp: length_py_range)
  then have count: "length (map mk idx) =
      prod_list (map (\<lambda>(sh, tsh). nat \<lceil>real_of_int sh / real_of_int tsh\<rceil>) (zip ext tshs))"
    unfolding idx_def by (simp add: length_product_lists prod_list.eq_foldr)
  have didx: "distinct idx"
    unfolding idx_def by (rule distinct_product_lists) (auto simp: rs_def distinct_py_range)
  have once: "length (filter (\<lambda>t. covers axs t p) (map mk idx)) = 1"
    if p: "p \<in> set (product_lists (map py_range ext))" for p
  proof -
    have lp: "length p = length axs"
      using p l1 by (simp add: in_product_lists_iff)
    have pj: "0 \<le> p ! j \<and> p ! j < ext ! j" if "j < length axs" for j
      using p l1 that by (auto simp: in_product_lists_iff set_py_range)
    have tj: "0 < tshs ! j" if "j < length axs" for j
      using pos l2 that by simp
    define v0 where "v0 = map (\<lambda>(q, tsh). q div tsh) (zip p tshs)"
    have lv0: "length v0 = length axs" unfolding v0_def using lp l2 by simp
    have v0j: "v0 ! j = p ! j div tshs ! j" if "j < length axs" for j
      unfolding v0_def using that lp l2 by simp
    have mem: "v0 \<in> set idx"
      unfolding idx_def in_product_lists_iff
      using lv0 lrs tile_index_range[OF tj] pj
      by (auto simp: rsj v0j set_py_range)
    have uniq: "covers axs (mk v) p \<longleftrightarrow> v = v0" if v: "v \<in> set idx" for v
    proof -
      have lv: "length v = length axs"
        using v lrs unfolding idx_def by (simp add: in_product_lists_iff)
      have "covers axs (mk v) p \<longleftrightarrow> (\<forall>j<length axs. in_slice (inner_of (mk v) (axs ! j)) (p ! j))"
        unfolding covers_def using lp by (simp add: list_all2_conv_all_nth)
      also have "\<dots> \<longleftrightarrow> (\<forall>j<length axs. v ! j * tshs ! j \<le> p ! j
                      \<and> p ! j < min (v ! j * tshs ! j + tshs ! j) (ext ! j))"
        unfolding mk_def using make_tile_windows(2)[OF dax sp l1 l2 l3 lv]
        by (simp add: in_slice_def)
      also have "\<dots> \<longleftrightarrow> (\<forall>j<length axs. v ! j = p ! j div tshs ! j)"
        using tile_index_unique[OF tj] pj by blast
      also have "\<dots> \<longleftrightarrow> v = v0"
        using lv lv0 by (auto simp: list_eq_iff_nth_eq v0j)
      finally show ?thesis .
    qed
    have "length (filter (\<lambda>v. covers axs (mk v) p) idx) = 1"
      by (rule filter_unique[OF didx mem]) (use uniq in blast)
    then show ?thesis by (simp add: filter_map comp_def)
  qed
  show ?thesis
    by (rule exI[of _ "map mk idx"]) (use run count once in blast)
qed

text \<open>
  The example of the claim: shape \<open>(9, 9)\<close>, tile \<open>(4, 4)\<close>, halo \<open>(1, 1)\<close> give 9 tiles, and each of
  the 81 positions lies in the inner window of exactly one of them.
\<close>

theorem get_tiling_partition_example:
  "\<exists>tiles. get_tiling [9, 9] [CHR ''y'' \<mapsto> 4, CHR ''x'' \<mapsto> 4] [CHR ''y'' \<mapsto> 1, CHR ''x'' \<mapsto> 1] ''yx''
       = Inr tiles \<and>
     length tiles = 9 \<and>
     length (product_lists (map py_range [9, 9])) = 81 \<and>
     list_all (\<lambda>p. length (filter (\<lambda>t. covers ''yx'' t p) tiles) = 1)
       (product_lists (map py_range [9, 9]))"
proof -
  have h1: "length [9, 9::int] = length ''yx''" by simp
  have h2: "distinct ''yx''" by simp
  have h3: "map [CHR ''y'' \<mapsto> 4, CHR ''x'' \<mapsto> 4::int] (filter spatial ''yx'') = map Some [4, 4]"
    by (simp add: spatial_def)
  have h4: "map [CHR ''y'' \<mapsto> 1, CHR ''x'' \<mapsto> 1::int] (filter spatial ''yx'') = map Some [1, 1]"
    by (simp add: spatial_def)
  have h5: "\<forall>t\<in>set [4, 4::int]. 0 < t" by simp
  have h6: "''yx'' = filter spatial ''yx''" by (simp add: spatial_def)
  have h7: "[9, 9::int] = spatial_shape [9, 9] ''yx''" by (simp add: spatial_shape_def spatial_def)
  from get_tiling_partition[OF h1 h2 h3 h4 h5 h6 h7]
  obtain tiles where
    run: "get_tiling [9, 9] [CHR ''y'' \<mapsto> 4, CHR ''x'' \<mapsto> 4] [CHR ''y'' \<mapsto> 1, CHR ''x'' \<mapsto> 1] ''yx''
            = Inr tiles"
    and n: "length tiles =
       prod_list (map (\<lambda>(sh, tsh). nat \<lceil>real_of_int sh / real_of_int tsh\<rceil>) (zip [9, 9] [4, 4]))"
    and once: "\<forall>p\<in>set (product_lists (map py_range [9, 9])).
       length (filter (\<lambda>t. covers ''yx'' t p) tiles) = 1"
    by blast
  have "length tiles = 9" using n by simp
  moreover have "length (product_lists (map py_range [9, 9])) = 81"
    by (simp only: length_product_lists list.map foldr.simps comp_def length_py_range) simp
  ultimately show ?thesis using run once by (auto simp: list_all_iff)
qed

subsection \<open>Padding and tiling requested together\<close>

text \<open>
  Claim C9. A setting is supplied when it is true in Python's sense: \<^verbatim>\<open>True\<close> or a dictionary
  that is not empty. When both the padding and the tiling are supplied, \<open>predict_sample\<close>
  raises the configuration error (a \<^verbatim>\<open>ValueError\<close>) and leaves the state of the files
  as it was, whatever reading and writing files would have done to it: no input is
  loaded, no tile is processed and no output is written.
\<close>

theorem predict_sample_conflict:
  assumes "padding_truth p" and "tiling_truth t"
  shows "predict_sample io pp ins outputs p t w = (Inl ValueError, w)"
  using assms by (simp add: predict_sample_def)

text \<open>
  An instance where every file access would be recorded in the state: the record stays
  empty.
\<close>

theorem predict_sample_conflict_example:
  "padding_truth (Flag True) \<and> tiling_truth (Dict \<lparr>halo = Some [CHR ''x'' \<mapsto> 8], tile = Some [CHR ''x'' \<mapsto> 64]\<rparr>) \<and>
   predict_sample
     \<lparr>load_image = (\<lambda>s axes w. (Inl RuntimeError, w @ [''load '' @ s])),
      save_image = (\<lambda>s (im :: int DataArray) w. (Inr (), w @ [''save '' @ s]))\<rparr>
     \<lparr>input_specs = [\<lparr>in_name = ''raw'', in_axes = ''bcyx'', in_shape = InputShape [1, 1, 64, 64]\<rparr>],
      output_specs = [\<lparr>out_name = ''out'', out_axes = ''bcyx'', out_shape = OutputShape [1, 1, 64, 64],
                       out_halo = Some [0, 0, 8, 8], out_data_type = ''float32''\<rparr>],
      forward = (\<lambda>xs. xs)\<rparr>
     [''in.npy''] [''out.npy''] (Flag True)
     (Dict \<lparr>halo = Some [CHR ''x'' \<mapsto> 8], tile = Some [CHR ''x'' \<mapsto> 64]\<rparr>) []
   = (Inl ValueError, [])"
proof -
  have p: "padding_truth (Flag True)" by (simp add: padding_truth_def)
  have t: "tiling_truth (Dict \<lparr>halo = Some [CHR ''x'' \<mapsto> 8], tile = Some [CHR ''x'' \<mapsto> 64]\<rparr>)"
    by (simp add: tiling_truth_def)
  show ?thesis using p t predict_sample_conflict[OF p t] by simp
qed

subsection \<open>Arrays as tables\<close>

lemma indices_iff:
  "idx \<in> set (indices sh) \<longleftrightarrow> length idx = length sh \<and> (\<forall>j<length sh. idx ! j < sh ! j)"
  by (auto simp: indices_def in_product_lists_iff)

lemma indices_Cons:
  "indices (n # sh) = concat (map (\<lambda>i. map ((#) i) (indices sh)) [0..<n])"
  by (simp add: indices_def)

lemma concat_blocks:
  "concat (map (\<lambda>i. map (\<lambda>k. i * m + k) [0..<m]) [0..<n]) = [0..<n * m]"
proof (induction n)
  case 0
  then show ?case by simp
next
  case (Suc n)
  have "map (\<lambda>k. n * m + k) [0..<m] = [n * m..<n * m + m]"
    using map_add_upt[of "n * m" m] by (simp add: add.commute)
  moreover have "[0..<n * m] @ [n * m..<n * m + m] = [0..<n * m + m]"
    using upt_add_eq_append[of 0 "n * m" m] by simp
  ultimately show ?case using Suc by (simp add: add.commute)
qed

lemma ravel_indices: "map (ravel sh) (indices sh) = [0..<prod_list sh]"
proof (induction sh)
  case Nil
  then show ?case by (simp add: indices_def)
next
  case (Cons n sh)
  have "map (ravel (n # sh)) (indices (n # sh))
      = concat (map (\<lambda>i. map (\<lambda>idx. i * prod_list sh + ravel sh idx) (indices sh)) [0..<n])"
    by (simp add: indices_Cons map_concat comp_def)
  also have "\<dots> = concat (map (\<lambda>i. map (\<lambda>k. i * prod_list sh + k) (map (ravel sh) (indices sh))) [0..<n])"
    by (simp add: comp_def)
  also have "\<dots> = [0..<n * prod_list sh]"
    unfolding Cons.IH by (rule concat_blocks)
  finally show ?case by simp
qed

lemma length_indices: "length (indices sh) = prod_list sh"
  using ravel_indices[of sh] by (metis length_map length_upt minus_nat.diff_0)

lemma distinct_indices: "distinct (indices sh)"
  unfolding indices_def by (rule distinct_product_lists) auto

lemma ravel_less: "idx \<in> set (indices sh) \<Longrightarrow> ravel sh idx < prod_list sh"
proof -
  assume "idx \<in> set (indices sh)"
  then have "ravel sh idx \<in> set (map (ravel sh) (indices sh))" by simp
  then show ?thesis unfolding ravel_indices by simp
qed

lemma nth_indices_ravel:
  assumes "idx \<in> set (indices sh)"
  shows "indices sh ! ravel sh idx = idx"
proof -
  from assms obtain k where k: "k < length (indices sh)" "indices sh ! k = idx"
    by (auto simp: in_set_conv_nth)
  have "map (ravel sh) (indices sh) ! k = ravel sh idx" using k by simp
  then have "ravel sh idx = k" using k(1) by (simp add: ravel_indices length_indices)
  then show ?thesis using k by simp
qed

lemma shape_tabulate [simp]: "shape (tabulate sh dt f) = sh"
  and dtype_tabulate [simp]: "dtype (tabulate sh dt f) = dt"
  by (simp_all add: tabulate_def)

lemma well_formed_tabulate [simp]: "well_formed (tabulate sh dt f)"
  by (simp add: well_formed_def tabulate_def length_indices)

lemma item_tabulate:
  "idx \<in> set (indices sh) \<Longrightarrow> item (tabulate sh dt f) idx = f idx"
  by (simp add: item_def tabulate_def ravel_less length_indices nth_indices_ravel)

lemma tabulate_cong:
  "(\<And>idx. idx \<in> set (indices sh) \<Longrightarrow> f idx = g idx) \<Longrightarrow> tabulate sh dt f = tabulate sh dt g"
  by (simp add: tabulate_def)

lemma tabulate_item:
  assumes "well_formed a"
  shows "tabulate (shape a) (dtype a) (item a) = a"
proof -
  have "map (item a) (indices (shape a)) = map ((!) (data a)) (map (ravel (shape a)) (indices (shape a)))"
    by (simp add: item_def comp_def)
  also have "\<dots> = data a"
    using assms unfolding ravel_indices well_formed_def by (metis map_nth)
  finally show ?thesis by (simp add: tabulate_def)
qed

subsection \<open>The padding loop\<close>

lemma mapM_Inr_iff:
  "mapM f xs = Inr ys \<longleftrightarrow> list_all2 (\<lambda>x y. f x = Inr y) xs ys"
proof (induction xs arbitrary: ys)
  case Nil
  then show ?case by auto
next
  case (Cons x xs)
  show ?case
  proof (cases "f x")
    case (Inl e)
    then show ?thesis by (auto simp: list_all2_Cons1)
  next
    case (Inr y)
    then show ?thesis
      using Cons.IH by (cases "mapM f xs") (auto simp: list_all2_Cons1)
  qed
qed

lemma mapM_Inl_D: "mapM f xs = Inl e \<Longrightarrow> \<exists>x\<in>set xs. f x = Inl e"
proof (induction xs)
  case Nil
  then show ?case by simp
next
  case (Cons x xs)
  then show ?case
    by (cases "f x"; cases "mapM f xs") auto
qed

lemma mapM_total:
  "(\<forall>x\<in>set xs. \<exists>y. f x = Inr y) \<Longrightarrow> \<exists>ys. mapM f xs = Inr ys"
  by (cases "mapM f xs") (auto dest!: mapM_Inl_D)

lemma mapM_Inl_I:
  assumes "\<exists>x\<in>set xs. f x = Inl e" and "\<forall>x\<in>set xs. \<forall>e'. f x = Inl e' \<longrightarrow> e' = e"
  shows "mapM f xs = Inl e"
proof (cases "mapM f xs")
  case (Inl e')
  then show ?thesis using assms(2) by (auto dest!: mapM_Inl_D)
next
  case (Inr ys)
  then have "list_all2 (\<lambda>x y. f x = Inr y) xs ys" by (simp add: mapM_Inr_iff)
  then have "\<forall>x\<in>set xs. \<exists>y. f x = Inr y"
    by (auto simp: list_all2_conv_all_nth in_set_conv_nth)
  then show ?thesis using assms(1) by auto
qed

lemma pad_loop_mapM:
  "pad_loop m pd zs pw crop =
     bind (mapM (pad_axis m pd) zs)
       (\<lambda>ws. Inr (pw @ map fst ws, crop(map fst zs [\<mapsto>] map snd ws)))"
proof (induction zs arbitrary: pw crop)
  case Nil
  then show ?case by simp
next
  case (Cons z zs)
  show ?case
  proof (cases "pad_axis m pd z")
    case (Inl e)
    then show ?thesis by simp
  next
    case (Inr wc)
    then show ?thesis
      using Cons.IH by (cases "mapM (pad_axis m pd) zs"; cases wc) simp_all
  qed
qed

lemma map_fst_zip3:
  "length ys = length xs \<Longrightarrow> length zs = length xs \<Longrightarrow> map fst (zip xs (zip ys zs)) = xs"
  by simp

lemma pad_eq:
  assumes nd: "length (shape im) = length axes"
    and md: "m = (case mode p of None \<Rightarrow> ''dynamic'' | Some v \<Rightarrow> v)" "m = ''dynamic'' \<or> m = ''fixed''"
    and guard: "dict_len (targets p) = (if CHR ''z'' \<in> set axes then 3 else 2)"
    and prs: "prs = (case pr of Broadcast b \<Rightarrow> replicate (length axes) (Some b) | PerAxis l \<Rightarrow> l)"
      "length prs = length axes"
  shows "pad im axes p pr =
     bind (mapM (pad_axis m (targets p)) (zip axes (zip (shape im) prs)))
       (\<lambda>ws. bind (np_pad im (map fst ws)) (\<lambda>im'. Inr (im', Map.empty(axes [\<mapsto>] map snd ws))))"
proof -
  have "map fst (zip axes (zip (shape im) prs)) = axes"
    using nd prs(2) by simp
  then show ?thesis
    using nd md guard prs(1)
    by (cases "mapM (pad_axis m (targets p)) (zip axes (zip (shape im) prs))")
       (auto simp: pad_def Let_def pad_loop_mapM)
qed

lemma np_pad_eq:
  assumes "length pw = length (shape a)" and "shape a \<noteq> []"
    and "\<forall>w\<in>set pw. 0 \<le> fst w \<and> 0 \<le> snd w"
    and "\<forall>i<length pw. shape a ! i = 0 \<longrightarrow> pw ! i = (0, 0)"
  shows "np_pad a pw =
     Inr (tabulate (map (\<lambda>(n, pre, post). nat (int n + pre + post)) (zip (shape a) pw)) (dtype a)
       (\<lambda>idx. item a (map (\<lambda>(i, n, pre, post). mirror n (int i - pre)) (zip idx (zip (shape a) pw)))))"
proof -
  have 1: "pw \<noteq> []" using assms(1,2) by auto
  have 2: "\<not> list_ex (\<lambda>(pre, post). pre < 0 \<or> post < 0) pw"
    using assms(3) by (fastforce simp: list_ex_iff)
  have 3: "\<not> list_ex (\<lambda>(n, pre, post). n = 0 \<and> (pre \<noteq> 0 \<or> post \<noteq> 0)) (zip (shape a) pw)"
    using assms(1,4) by (fastforce simp: list_ex_iff in_set_zip)
  show ?thesis using 1 2 3 assms(1) by (simp add: np_pad_def)
qed

lemma pad_success:
  assumes nd: "length (shape im) = length axes"
    and md: "m = (case mode p of None \<Rightarrow> ''dynamic'' | Some v \<Rightarrow> v)" "m = ''dynamic'' \<or> m = ''fixed''"
    and guard: "dict_len (targets p) = (if CHR ''z'' \<in> set axes then 3 else 2)"
    and prs: "prs = (case pr of Broadcast b \<Rightarrow> replicate (length axes) (Some b) | PerAxis l \<Rightarrow> l)"
      "length prs = length axes"
    and ne: "axes \<noteq> []"
    and ws: "list_all2 (\<lambda>z w. pad_axis m (targets p) z = Inr w) (zip axes (zip (shape im) prs)) ws"
    and nonneg: "\<forall>w\<in>set ws. 0 \<le> fst (fst w) \<and> 0 \<le> snd (fst w)"
    and nonempty: "\<forall>i<length axes. shape im ! i = 0 \<longrightarrow> fst (ws ! i) = (0, 0)"
  shows "pad im axes p pr =
     Inr (tabulate (map (\<lambda>(n, pre, post). nat (int n + pre + post)) (zip (shape im) (map fst ws)))
            (dtype im)
            (\<lambda>idx. item im (map (\<lambda>(i, n, pre, post). mirror n (int i - pre))
                               (zip idx (zip (shape im) (map fst ws))))),
          Map.empty(axes [\<mapsto>] map snd ws))"
proof -
  have lws: "length ws = length axes"
    using ws nd prs(2) by (auto dest: list_all2_lengthD)
  have run: "mapM (pad_axis m (targets p)) (zip axes (zip (shape im) prs)) = Inr ws"
    using ws by (simp add: mapM_Inr_iff)
  have "np_pad im (map fst ws) =
     Inr (tabulate (map (\<lambda>(n, pre, post). nat (int n + pre + post)) (zip (shape im) (map fst ws)))
            (dtype im)
            (\<lambda>idx. item im (map (\<lambda>(i, n, pre, post). mirror n (int i - pre))
                               (zip idx (zip (shape im) (map fst ws))))))"
    using lws nd ne nonneg nonempty by (intro np_pad_eq) auto
  then show ?thesis
    unfolding pad_eq[OF nd md guard prs] run by simp
qed

lemma pad_axis_nonspatial:
  "\<not> spatial ax \<Longrightarrow> pad_axis m pd (ax, n, pr) = Inr ((0, 0), Slice None None)"
  by (simp add: pad_axis_def)

lemma pad_axis_dynamic:
  assumes "spatial ax" "map_of pd ax = Some t" "t \<noteq> 0"
  shows "pad_axis ''dynamic'' pd (ax, n, pr) =
     Inr (if pr = Some True then (0, if int n mod t = 0 then 0 else t - int n mod t)
          else (if int n mod t = 0 then 0 else t - int n mod t, 0),
          if pr = Some True then Slice (Some 0) (Some (int n))
          else Slice (Some (if int n mod t = 0 then 0 else t - int n mod t)) None)"
  using assms by (simp add: pad_axis_def getitem_def pad_amount_def Let_def)

lemma pad_axis_fixed:
  assumes "spatial ax" "map_of pd ax = Some t"
  shows "pad_axis ''fixed'' pd (ax, n, pr) =
     (if t < int n then Inl RuntimeError
      else Inr (if pr = Some True then (0, t - int n) else (t - int n, 0),
                if pr = Some True then Slice (Some 0) (Some (int n)) else Slice (Some (t - int n)) None))"
  using assms by (simp add: pad_axis_def getitem_def pad_amount_def)

lemma length_sides:
  assumes "\<forall>l. pr = PerAxis l \<longrightarrow> length l = length axes"
  shows "length (case pr of Broadcast b \<Rightarrow> replicate (length axes) (Some b) | PerAxis l \<Rightarrow> l) = length axes"
  using assms by (cases pr) auto

text \<open>
  Claim C5, as amended. Take an array with at least one axis and a dynamic padding
  dictionary with exactly two targets (three when \<open>z\<close> is an axis of the array) that has a
  positive target for every spatial axis of the array. Then \<open>pad\<close> returns a padded array;
  its extent on a spatial axis is the old extent plus a width that is 0 when the extent
  is a multiple of the target and the target minus the remainder otherwise, so it is a
  multiple of the target; the extent on every other axis is unchanged.
\<close>

theorem pad_dynamic_law:
  assumes nd: "length (shape im) = length axes"
    and md: "mode p = None \<or> mode p = Some ''dynamic''"
    and guard: "dict_len (targets p) = (if CHR ''z'' \<in> set axes then 3 else 2)"
    and tg: "\<forall>ax\<in>set axes. spatial ax \<longrightarrow> map_of (targets p) ax = Some (tg ax) \<and> 0 < tg ax"
    and ne: "axes \<noteq> []"
    and side: "\<forall>l. pr = PerAxis l \<longrightarrow> length l = length axes"
  shows "\<exists>im' crop. pad im axes p pr = Inr (im', crop) \<and> length (shape im') = length axes \<and>
     (\<forall>i<length axes.
        (spatial (axes ! i) \<longrightarrow>
           int (shape im' ! i) mod tg (axes ! i) = 0 \<and>
           int (shape im' ! i) = int (shape im ! i) +
             (if int (shape im ! i) mod tg (axes ! i) = 0 then 0
              else tg (axes ! i) - int (shape im ! i) mod tg (axes ! i))) \<and>
        (\<not> spatial (axes ! i) \<longrightarrow> shape im' ! i = shape im ! i))"
proof -
  define prs where "prs = (case pr of Broadcast b \<Rightarrow> replicate (length axes) (Some b) | PerAxis l \<Rightarrow> l)"
  have lprs: "length prs = length axes"
    unfolding prs_def by (rule length_sides[OF side])
  define dw where "dw ax n = (if int n mod tg ax = 0 then 0 else tg ax - int n mod tg ax)" for ax n
  define entry where "entry z = (case z of (ax, n, s) \<Rightarrow>
      if spatial ax
      then (if s = Some True then (0, dw ax n) else (dw ax n, 0),
            if s = Some True then Slice (Some 0) (Some (int n)) else Slice (Some (dw ax n)) None)
      else ((0, 0), Slice None None))" for z :: "char \<times> nat \<times> bool option"
  define zs where "zs = zip axes (zip (shape im) prs)"
  define ws where "ws = map entry zs"
  have lzs: "length zs = length axes" unfolding zs_def using nd lprs by simp
  have zi: "zs ! i = (axes ! i, shape im ! i, prs ! i)" if "i < length axes" for i
    unfolding zs_def using that nd lprs by simp
  have dw0: "0 \<le> dw ax n" if "ax \<in> set axes" "spatial ax" for ax n
  proof -
    have "0 < tg ax" using tg that by blast
    then have "int n mod tg ax < tg ax" by simp
    then show ?thesis unfolding dw_def by simp
  qed
  have m: "''dynamic'' = (case mode p of None \<Rightarrow> ''dynamic'' | Some v \<Rightarrow> v)"
    using md by auto
  have step: "pad_axis ''dynamic'' (targets p) z = Inr (entry z)" if "z \<in> set zs" for z
  proof -
    obtain ax n s where z: "z = (ax, n, s)" by (cases z) auto
    have ax: "ax \<in> set axes" using that unfolding zs_def z by (auto dest: set_zip_leftD)
    show ?thesis
    proof (cases "spatial ax")
      case True
      then have "map_of (targets p) ax = Some (tg ax)" "tg ax \<noteq> 0" using tg ax by auto
      then show ?thesis
        unfolding z entry_def dw_def using True by (simp add: pad_axis_dynamic)
    next
      case False
      then show ?thesis unfolding z entry_def by (simp add: pad_axis_nonspatial)
    qed
  qed
  have all2: "list_all2 (\<lambda>z w. pad_axis ''dynamic'' (targets p) z = Inr w) (zip axes (zip (shape im) prs)) ws"
    unfolding ws_def zs_def[symmetric] using step by (simp add: list_all2_conv_all_nth)
  have nonneg: "\<forall>w\<in>set ws. 0 \<le> fst (fst w) \<and> 0 \<le> snd (fst w)"
  proof
    fix w assume "w \<in> set ws"
    then obtain z where z: "z \<in> set zs" "w = entry z" unfolding ws_def by auto
    obtain ax n s where zz: "z = (ax, n, s)" by (cases z) auto
    have "ax \<in> set axes" using z(1) unfolding zs_def zz by (auto dest: set_zip_leftD)
    then show "0 \<le> fst (fst w) \<and> 0 \<le> snd (fst w)"
      unfolding z(2) zz entry_def using dw0[of ax n] by auto
  qed
  have wi: "ws ! i = entry (axes ! i, shape im ! i, prs ! i)" if "i < length axes" for i
    unfolding ws_def using that lzs zi by simp
  have nonempty: "\<forall>i<length axes. shape im ! i = 0 \<longrightarrow> fst (ws ! i) = (0, 0)"
    by (auto simp: wi entry_def dw_def)
  note res = pad_success[OF nd m _ guard prs_def lprs ne all2 nonneg nonempty]
  have sh: "int (nat (int (shape im ! i) + fst (fst (ws ! i)) + snd (fst (ws ! i)))) =
      int (shape im ! i) + (if spatial (axes ! i) then dw (axes ! i) (shape im ! i) else 0)"
    if "i < length axes" for i
    using that dw0[of "axes ! i" "shape im ! i"] by (auto simp: wi entry_def)
  have lws: "length ws = length axes" unfolding ws_def using lzs by simp
  have modz: "(int n + dw ax n) mod tg ax = 0" for ax n
  proof -
    have "int n + (tg ax - int n mod tg ax) = tg ax * (1 + int n div tg ax)"
      using mult_div_mod_eq[of "tg ax" "int n"] by (simp add: algebra_simps)
    then show ?thesis unfolding dw_def by simp
  qed
  show ?thesis
    apply (rule exI, rule exI, rule conjI, rule res, simp)
    apply (intro conjI allI impI)
    subgoal using nd lws by simp
    subgoal for i using nd lws sh[of i] modz[of "shape im ! i" "axes ! i"] by (simp add: case_prod_beta)
    subgoal for i using nd lws sh[of i] by (simp add: case_prod_beta dw_def)
    subgoal for i using nd lws wi[of i] by (simp add: case_prod_beta entry_def)
    done
qed

lemma np_pad_errors: "np_pad a pw = Inl e \<Longrightarrow> e = TypeError \<or> e = ValueError"
  by (auto simp: np_pad_def Let_def split: if_splits)

text \<open>
  Claim C4, as amended. Take an array with at least one axis and a fixed padding
  dictionary with exactly two targets (three when \<open>z\<close> is an axis of the array) that has a
  target for every spatial axis of the array. Then \<open>pad\<close> raises the padding error (a
  \<^verbatim>\<open>RuntimeError\<close>) exactly when the target of some spatial axis is below its extent. When
  no target is below the extent, and no axis without elements has to grow, \<open>pad\<close> returns
  a padded array whose extent on every spatial axis is the target, the width being the
  target minus the extent, and whose extent on every other axis is unchanged.
\<close>

theorem pad_fixed_law:
  assumes nd: "length (shape im) = length axes"
    and md: "mode p = Some ''fixed''"
    and guard: "dict_len (targets p) = (if CHR ''z'' \<in> set axes then 3 else 2)"
    and tg: "\<forall>ax\<in>set axes. spatial ax \<longrightarrow> map_of (targets p) ax = Some (tg ax)"
    and ne: "axes \<noteq> []"
    and side: "\<forall>l. pr = PerAxis l \<longrightarrow> length l = length axes"
  shows "(pad im axes p pr = Inl RuntimeError \<longleftrightarrow>
            (\<exists>i<length axes. spatial (axes ! i) \<and> tg (axes ! i) < int (shape im ! i))) \<and>
         ((\<forall>i<length axes. spatial (axes ! i) \<longrightarrow>
              int (shape im ! i) \<le> tg (axes ! i) \<and> (shape im ! i = 0 \<longrightarrow> tg (axes ! i) = 0)) \<longrightarrow>
          (\<exists>im' crop. pad im axes p pr = Inr (im', crop) \<and> length (shape im') = length axes \<and>
             (\<forall>i<length axes.
                (spatial (axes ! i) \<longrightarrow>
                   int (shape im' ! i) = tg (axes ! i) \<and>
                   pad_amount ''fixed'' (tg (axes ! i)) (int (shape im ! i))
                     = Inr (tg (axes ! i) - int (shape im ! i))) \<and>
                (\<not> spatial (axes ! i) \<longrightarrow> shape im' ! i = shape im ! i))))"
proof (intro conjI impI)
  define prs where "prs = (case pr of Broadcast b \<Rightarrow> replicate (length axes) (Some b) | PerAxis l \<Rightarrow> l)"
  have lprs: "length prs = length axes"
    unfolding prs_def by (rule length_sides[OF side])
  define zs where "zs = zip axes (zip (shape im) prs)"
  have lzs: "length zs = length axes" unfolding zs_def using nd lprs by simp
  have zi: "zs ! i = (axes ! i, shape im ! i, prs ! i)" if "i < length axes" for i
    unfolding zs_def using that nd lprs by simp
  have m: "''fixed'' = (case mode p of None \<Rightarrow> ''dynamic'' | Some v \<Rightarrow> v)"
    using md by auto
  have eq: "pad im axes p pr =
     bind (mapM (pad_axis ''fixed'' (targets p)) zs)
       (\<lambda>ws. bind (np_pad im (map fst ws)) (\<lambda>im'. Inr (im', Map.empty(axes [\<mapsto>] map snd ws))))"
    unfolding zs_def by (rule pad_eq[OF nd m _ guard prs_def lprs]) simp
  define entry where "entry z = (case z of (ax, n, s) \<Rightarrow>
      if spatial ax
      then (if s = Some True then (0, tg ax - int n) else (tg ax - int n, 0),
            if s = Some True then Slice (Some 0) (Some (int n)) else Slice (Some (tg ax - int n)) None)
      else ((0, 0), Slice None None))" for z :: "char \<times> nat \<times> bool option"
  have step: "pad_axis ''fixed'' (targets p) (zs ! i) =
      (if spatial (axes ! i) \<and> tg (axes ! i) < int (shape im ! i) then Inl RuntimeError
       else Inr (entry (zs ! i)))" if "i < length axes" for i
  proof (cases "spatial (axes ! i)")
    case True
    then have "map_of (targets p) (axes ! i) = Some (tg (axes ! i))" using tg that by simp
    then show ?thesis using True by (simp add: zi[OF that] pad_axis_fixed entry_def)
  next
    case False
    then show ?thesis by (simp add: zi[OF that] pad_axis_nonspatial entry_def)
  qed
  show "pad im axes p pr = Inl RuntimeError \<longleftrightarrow>
          (\<exists>i<length axes. spatial (axes ! i) \<and> tg (axes ! i) < int (shape im ! i))"
  proof
    assume r: "pad im axes p pr = Inl RuntimeError"
    show "\<exists>i<length axes. spatial (axes ! i) \<and> tg (axes ! i) < int (shape im ! i)"
    proof (cases "mapM (pad_axis ''fixed'' (targets p)) zs")
      case (Inl e)
      then obtain z where "z \<in> set zs" "pad_axis ''fixed'' (targets p) z = Inl e"
        by (auto dest!: mapM_Inl_D)
      then obtain i where "i < length axes" "pad_axis ''fixed'' (targets p) (zs ! i) = Inl e"
        using lzs by (auto simp: in_set_conv_nth)
      then show ?thesis using step[of i] by (auto split: if_splits)
    next
      case (Inr ws)
      then have "\<exists>e. np_pad im (map fst ws) = Inl e \<and> e = RuntimeError"
        using r unfolding eq by (cases "np_pad im (map fst ws)") auto
      then show ?thesis by (auto dest: np_pad_errors)
    qed
  next
    assume "\<exists>i<length axes. spatial (axes ! i) \<and> tg (axes ! i) < int (shape im ! i)"
    then obtain i where i: "i < length axes" "spatial (axes ! i)" "tg (axes ! i) < int (shape im ! i)"
      by blast
    have 1: "\<exists>z\<in>set zs. pad_axis ''fixed'' (targets p) z = Inl RuntimeError"
      using step[OF i(1)] i lzs by (auto intro!: bexI[of _ "zs ! i"])
    have 2: "\<forall>z\<in>set zs. \<forall>e'. pad_axis ''fixed'' (targets p) z = Inl e' \<longrightarrow> e' = RuntimeError"
    proof (intro ballI allI impI)
      fix z e' assume "z \<in> set zs" "pad_axis ''fixed'' (targets p) z = Inl e'"
      then obtain k where "k < length axes" "pad_axis ''fixed'' (targets p) (zs ! k) = Inl e'"
        using lzs by (auto simp: in_set_conv_nth)
      then show "e' = RuntimeError" using step[of k] by (auto split: if_splits)
    qed
    show "pad im axes p pr = Inl RuntimeError"
      unfolding eq mapM_Inl_I[OF 1 2] by simp
  qed
next
  assume fits: "\<forall>i<length axes. spatial (axes ! i) \<longrightarrow>
      int (shape im ! i) \<le> tg (axes ! i) \<and> (shape im ! i = 0 \<longrightarrow> tg (axes ! i) = 0)"
  define prs where "prs = (case pr of Broadcast b \<Rightarrow> replicate (length axes) (Some b) | PerAxis l \<Rightarrow> l)"
  have lprs: "length prs = length axes"
    unfolding prs_def by (rule length_sides[OF side])
  define zs where "zs = zip axes (zip (shape im) prs)"
  have lzs: "length zs = length axes" unfolding zs_def using nd lprs by simp
  have zi: "zs ! i = (axes ! i, shape im ! i, prs ! i)" if "i < length axes" for i
    unfolding zs_def using that nd lprs by simp
  have m: "''fixed'' = (case mode p of None \<Rightarrow> ''dynamic'' | Some v \<Rightarrow> v)"
    using md by auto
  define entry where "entry z = (case z of (ax, n, s) \<Rightarrow>
      if spatial ax
      then (if s = Some True then (0, tg ax - int n) else (tg ax - int n, 0),
            if s = Some True then Slice (Some 0) (Some (int n)) else Slice (Some (tg ax - int n)) None)
      else ((0, 0), Slice None None))" for z :: "char \<times> nat \<times> bool option"
  define ws where "ws = map entry zs"
  have wi: "ws ! i = entry (axes ! i, shape im ! i, prs ! i)" if "i < length axes" for i
    unfolding ws_def using that lzs zi by simp
  have lws: "length ws = length axes" unfolding ws_def using lzs by simp
  have step: "pad_axis ''fixed'' (targets p) (zs ! i) = Inr (ws ! i)" if "i < length axes" for i
  proof (cases "spatial (axes ! i)")
    case True
    then have "map_of (targets p) (axes ! i) = Some (tg (axes ! i))" using tg that by simp
    moreover have "\<not> tg (axes ! i) < int (shape im ! i)"
      using True fits that by fastforce
    ultimately show ?thesis
      using True by (simp add: zi[OF that] wi[OF that] pad_axis_fixed entry_def)
  next
    case False
    then show ?thesis by (simp add: zi[OF that] wi[OF that] pad_axis_nonspatial entry_def)
  qed
  have all2: "list_all2 (\<lambda>z w. pad_axis ''fixed'' (targets p) z = Inr w) (zip axes (zip (shape im) prs)) ws"
    unfolding zs_def[symmetric] using step lws lzs by (simp add: list_all2_conv_all_nth)
  have nonneg: "\<forall>w\<in>set ws. 0 \<le> fst (fst w) \<and> 0 \<le> snd (fst w)"
  proof
    fix w assume "w \<in> set ws"
    then obtain i where "i < length axes" "w = ws ! i" using lws by (auto simp: in_set_conv_nth)
    then show "0 \<le> fst (fst w) \<and> 0 \<le> snd (fst w)"
      using fits by (auto simp: wi entry_def)
  qed
  have nonempty: "\<forall>i<length axes. shape im ! i = 0 \<longrightarrow> fst (ws ! i) = (0, 0)"
    using fits by (auto simp: wi entry_def)
  note res = pad_success[OF nd m _ guard prs_def lprs ne all2 nonneg nonempty]
  show "\<exists>im' crop. pad im axes p pr = Inr (im', crop) \<and> length (shape im') = length axes \<and>
             (\<forall>i<length axes.
                (spatial (axes ! i) \<longrightarrow>
                   int (shape im' ! i) = tg (axes ! i) \<and>
                   pad_amount ''fixed'' (tg (axes ! i)) (int (shape im ! i))
                     = Inr (tg (axes ! i) - int (shape im ! i))) \<and>
                (\<not> spatial (axes ! i) \<longrightarrow> shape im' ! i = shape im ! i))"
    apply (rule exI, rule exI, rule conjI, rule res, simp)
    apply (intro conjI allI impI)
    subgoal using nd lws by simp
    subgoal for i using nd lws wi[of i] fits by (auto simp: case_prod_beta entry_def)
    subgoal for i using fits by (fastforce simp: pad_amount_def)
    subgoal for i using nd lws wi[of i] by (simp add: case_prod_beta entry_def)
    done
qed

subsection \<open>The crop inverts the padding\<close>

lemma pad_Inr_D:
  assumes "pad im axes p pr = Inr (im', crop)"
    and "prs = (case pr of Broadcast b \<Rightarrow> replicate (length axes) (Some b) | PerAxis l \<Rightarrow> l)"
    and "length prs = length axes"
  shows "\<exists>ws m. length (shape im) = length axes \<and>
           list_all2 (\<lambda>z w. pad_axis m (targets p) z = Inr w) (zip axes (zip (shape im) prs)) ws \<and>
           np_pad im (map fst ws) = Inr im' \<and> crop = Map.empty(axes [\<mapsto>] map snd ws)"
proof -
  define m where "m = (case mode p of None \<Rightarrow> ''dynamic'' | Some v \<Rightarrow> v)"
  have nd: "length (shape im) = length axes"
    using assms(1) by (auto simp: pad_def split: if_splits)
  have md: "m = ''dynamic'' \<or> m = ''fixed''"
    using assms(1) nd unfolding m_def by (auto simp: pad_def Let_def split: if_splits)
  have guard: "dict_len (targets p) = (if CHR ''z'' \<in> set axes then 3 else 2)"
    using assms(1) nd md unfolding m_def by (auto simp: pad_def Let_def split: if_splits)
  note eq = pad_eq[OF nd m_def md guard assms(2,3)]
  obtain ws where ws: "mapM (pad_axis m (targets p)) (zip axes (zip (shape im) prs)) = Inr ws"
    using assms(1) unfolding eq
    by (cases "mapM (pad_axis m (targets p)) (zip axes (zip (shape im) prs))") auto
  have "np_pad im (map fst ws) = Inr im' \<and> crop = Map.empty(axes [\<mapsto>] map snd ws)"
    using assms(1) unfolding eq ws by (cases "np_pad im (map fst ws)") auto
  then show ?thesis using nd ws by (auto simp: mapM_Inr_iff)
qed

lemma np_pad_Inr_D:
  assumes "np_pad a pw = Inr a'" and "length pw = length (shape a)"
  shows "(\<forall>w\<in>set pw. 0 \<le> fst w \<and> 0 \<le> snd w) \<and>
     a' = tabulate (map (\<lambda>(n, pre, post). nat (int n + pre + post)) (zip (shape a) pw)) (dtype a)
       (\<lambda>idx. item a (map (\<lambda>(i, n, pre, post). mirror n (int i - pre)) (zip idx (zip (shape a) pw))))"
  using assms by (fastforce simp: np_pad_def list_ex_iff split: if_splits)

lemma pad_axis_inverts:
  assumes "pad_axis m pd (ax, n, s) = Inr ((pre, post), c)" and "0 \<le> pre" and "0 \<le> post"
  shows "slice_offset c (nat (int n + pre + post)) = nat pre \<and>
         slice_length c (nat (int n + pre + post)) = n"
proof (cases "spatial ax")
  case False
  then show ?thesis
    using assms by (auto simp: pad_axis_nonspatial slice_offset_def slice_length_def
        slice_start_def slice_stop_def)
next
  case True
  then obtain pad_to pwidth where
    w: "(pre, post) = (if s = Some True then (0, pwidth) else (pwidth, 0))"
    and c: "c = (if s = Some True then Slice (Some 0) (Some (int n)) else Slice (Some pwidth) None)"
    using assms(1)
    by (auto simp: pad_axis_def bind_def split: sum.splits if_splits)
  show ?thesis
    using w c assms(2,3)
    by (auto simp: slice_offset_def slice_length_def slice_start_def slice_stop_def
        split: if_splits)
qed

lemma mirror_id: "i < n \<Longrightarrow> mirror n (int i) = i"
  by (simp add: mirror_def)

lemma mapM_getitem_upds:
  assumes "distinct ks" and "length vs = length ks"
  shows "mapM (getitem (m(ks [\<mapsto>] vs))) ks = Inr vs"
proof -
  have "map (m(ks [\<mapsto>] vs)) ks = map Some vs"
    using assms by (auto simp: list_eq_iff_nth_eq map_upds_nth)
  then show ?thesis by (rule mapM_getitem)
qed

lemma nd_getitem_full:
  assumes "length key = length (shape a)"
  shows "nd_getitem a key =
     Inr (tabulate (map2 slice_length key (shape a)) (dtype a)
       (\<lambda>idx. item a (map2 (+) (map2 slice_offset key (shape a)) idx)))"
  using assms by (simp add: nd_getitem_def full_key_def)

lemma pad_crop_inverse:
  assumes wf: "well_formed im" and d: "distinct axes"
    and side: "\<forall>l. pr = PerAxis l \<longrightarrow> length l = length axes"
    and run: "pad im axes p pr = Inr (im', crop)"
  shows "apply_crop \<lparr>dims = axes, array = im'\<rparr> crop = Inr \<lparr>dims = axes, array = im\<rparr>"
proof -
  define prs where "prs = (case pr of Broadcast b \<Rightarrow> replicate (length axes) (Some b) | PerAxis l \<Rightarrow> l)"
  have lprs: "length prs = length axes"
    unfolding prs_def by (rule length_sides[OF side])
  from pad_Inr_D[OF run prs_def lprs] obtain ws m where
    nd: "length (shape im) = length axes"
    and ws: "list_all2 (\<lambda>z w. pad_axis m (targets p) z = Inr w) (zip axes (zip (shape im) prs)) ws"
    and np: "np_pad im (map fst ws) = Inr im'"
    and crop: "crop = Map.empty(axes [\<mapsto>] map snd ws)"
    by blast
  have lws: "length ws = length axes"
    using ws nd lprs by (auto dest: list_all2_lengthD)
  define pw where "pw = map fst ws"
  define key where "key = map snd ws"
  have lpw: "length pw = length (shape im)" unfolding pw_def using lws nd by simp
  from np_pad_Inr_D[OF np[folded pw_def] lpw]
  have nonneg: "\<forall>w\<in>set pw. 0 \<le> fst w \<and> 0 \<le> snd w"
    and im': "im' = tabulate (map (\<lambda>(n, pre, post). nat (int n + pre + post)) (zip (shape im) pw))
       (dtype im)
       (\<lambda>idx. item im (map (\<lambda>(i, n, pre, post). mirror n (int i - pre)) (zip idx (zip (shape im) pw))))"
    by blast+
  define sh' where "sh' = map (\<lambda>(n, pre, post). nat (int n + pre + post)) (zip (shape im) pw)"
  have lsh': "length sh' = length axes" unfolding sh'_def using lpw nd by simp
  have axis: "slice_offset (key ! i) (sh' ! i) = nat (fst (pw ! i)) \<and>
              slice_length (key ! i) (sh' ! i) = shape im ! i \<and>
              0 \<le> fst (pw ! i) \<and> 0 \<le> snd (pw ! i) \<and>
              int (sh' ! i) = int (shape im ! i) + fst (pw ! i) + snd (pw ! i)"
    if i: "i < length axes" for i
  proof -
    have z: "zip axes (zip (shape im) prs) ! i = (axes ! i, shape im ! i, prs ! i)"
      using i nd lprs by simp
    have "pad_axis m (targets p) (axes ! i, shape im ! i, prs ! i) = Inr (ws ! i)"
      using ws i nd lprs z by (auto simp: list_all2_conv_all_nth)
    then have pa: "pad_axis m (targets p) (axes ! i, shape im ! i, prs ! i)
        = Inr ((fst (pw ! i), snd (pw ! i)), key ! i)"
      unfolding pw_def key_def using i lws by simp
    have "pw ! i \<in> set pw" using i lpw nd by simp
    then have nn: "0 \<le> fst (pw ! i)" "0 \<le> snd (pw ! i)"
      using nonneg by blast+
    have s: "sh' ! i = nat (int (shape im ! i) + fst (pw ! i) + snd (pw ! i))"
      unfolding sh'_def using i lpw nd by (simp add: case_prod_beta)
    show ?thesis using pad_axis_inverts[OF pa nn] nn unfolding s by simp
  qed
  have shape': "shape im' = sh'" unfolding im' sh'_def by simp
  have lens: "map2 slice_length key sh' = shape im"
    using axis lsh' lws nd unfolding key_def by (auto simp: list_eq_iff_nth_eq)
  have elem: "item im' (map2 (+) (map2 slice_offset key sh') idx) = item im idx"
    if idx: "idx \<in> set (indices (shape im))" for idx
  proof -
    have lidx: "length idx = length axes" and bound: "\<And>j. j < length axes \<Longrightarrow> idx ! j < shape im ! j"
      using idx nd by (auto simp: indices_iff)
    define idx' where "idx' = map2 (+) (map2 slice_offset key sh') idx"
    have lkey: "length key = length axes" unfolding key_def using lws by simp
    have lidx': "length idx' = length axes" unfolding idx'_def using lidx lsh' lkey by simp
    have idx'j: "idx' ! j = nat (fst (pw ! j)) + idx ! j" if "j < length axes" for j
      unfolding idx'_def using that lidx lsh' lkey axis[OF that] by simp
    have mem: "idx' \<in> set (indices sh')"
      unfolding indices_iff
    proof (intro conjI allI impI)
      show "length idx' = length sh'" using lidx' lsh' by simp
      fix j assume "j < length sh'"
      then have j: "j < length axes" using lsh' by simp
      have "int (idx' ! j) < int (sh' ! j)"
        using idx'j[OF j] bound[OF j] axis[OF j] by simp
      then show "idx' ! j < sh' ! j" by simp
    qed
    have "map (\<lambda>(i, n, pre, post). mirror n (int i - pre)) (zip idx' (zip (shape im) pw)) = idx"
      using lidx lidx' lpw nd idx'j axis bound
      by (auto simp: list_eq_iff_nth_eq mirror_id case_prod_beta)
    then show ?thesis
      unfolding idx'_def[symmetric] im' sh'_def[symmetric] using mem by (simp add: item_tabulate)
  qed
  have "mapM (getitem crop) axes = Inr key"
    unfolding crop key_def using d lws by (intro mapM_getitem_upds) auto
  moreover have "nd_getitem im' key = Inr (tabulate (shape im) (dtype im) (item im))"
  proof -
    have "nd_getitem im' key =
        Inr (tabulate (map2 slice_length key sh') (dtype im')
          (\<lambda>idx. item im' (map2 (+) (map2 slice_offset key sh') idx)))"
      using lws lsh' unfolding shape'[symmetric] key_def by (intro nd_getitem_full) simp
    also have "\<dots> = Inr (tabulate (shape im) (dtype im) (item im))"
      unfolding lens using elem by (auto simp: im' intro!: tabulate_cong)
    finally show ?thesis .
  qed
  ultimately show ?thesis
    by (simp add: apply_crop_def tabulate_item[OF wf])
qed

lemma pad_total:
  assumes nd: "length (shape im) = length axes"
    and md: "m = (case mode p of None \<Rightarrow> ''dynamic'' | Some v \<Rightarrow> v)" "m = ''dynamic'' \<or> m = ''fixed''"
    and guard: "dict_len (targets p) = (if CHR ''z'' \<in> set axes then 3 else 2)"
    and prs: "prs = (case pr of Broadcast b \<Rightarrow> replicate (length axes) (Some b) | PerAxis l \<Rightarrow> l)"
      "length prs = length axes"
    and ne: "axes \<noteq> []"
    and ax: "\<forall>i<length axes. \<exists>w c. pad_axis m (targets p) (axes ! i, shape im ! i, prs ! i) = Inr (w, c)
                \<and> 0 \<le> fst w \<and> 0 \<le> snd w \<and> (shape im ! i = 0 \<longrightarrow> w = (0, 0))"
  shows "\<exists>im' crop. pad im axes p pr = Inr (im', crop)"
proof -
  define zs where "zs = zip axes (zip (shape im) prs)"
  have lzs: "length zs = length axes" unfolding zs_def using nd prs(2) by simp
  have zi: "zs ! i = (axes ! i, shape im ! i, prs ! i)" if "i < length axes" for i
    unfolding zs_def using that nd prs(2) by simp
  have "\<forall>z\<in>set zs. \<exists>w. pad_axis m (targets p) z = Inr w"
    using ax lzs zi by (fastforce simp: in_set_conv_nth)
  then obtain ws where "mapM (pad_axis m (targets p)) zs = Inr ws"
    using mapM_total by blast
  then have ws: "list_all2 (\<lambda>z w. pad_axis m (targets p) z = Inr w) zs ws"
    by (simp add: mapM_Inr_iff)
  then have lws: "length ws = length axes" using lzs by (auto dest: list_all2_lengthD)
  have wi: "0 \<le> fst (fst (ws ! i)) \<and> 0 \<le> snd (fst (ws ! i)) \<and>
            (shape im ! i = 0 \<longrightarrow> fst (ws ! i) = (0, 0))" if i: "i < length axes" for i
  proof -
    have r: "pad_axis m (targets p) (axes ! i, shape im ! i, prs ! i) = Inr (ws ! i)"
      using ws i lzs zi by (auto simp: list_all2_conv_all_nth)
    from ax i obtain w c where
      "pad_axis m (targets p) (axes ! i, shape im ! i, prs ! i) = Inr (w, c)"
      and p: "0 \<le> fst w" "0 \<le> snd w" "shape im ! i = 0 \<longrightarrow> w = (0, 0)"
      by blast
    with r have "ws ! i = (w, c)" by simp
    with p show ?thesis by simp
  qed
  have nonneg: "\<forall>w\<in>set ws. 0 \<le> fst (fst w) \<and> 0 \<le> snd (fst w)"
  proof
    fix w assume "w \<in> set ws"
    then obtain i where "i < length axes" "w = ws ! i" using lws by (auto simp: in_set_conv_nth)
    then show "0 \<le> fst (fst w) \<and> 0 \<le> snd (fst w)" using wi[of i] by simp
  qed
  have nonempty: "\<forall>i<length axes. shape im ! i = 0 \<longrightarrow> fst (ws ! i) = (0, 0)"
    using wi by blast
  show ?thesis
    using pad_success[OF nd md guard prs ne ws[unfolded zs_def] nonneg nonempty] by blast
qed

text \<open>
  Claim C3, as amended. Take an array with distinct axis labels and at least one axis,
  and a padding dictionary with exactly two targets (three when \<open>z\<close> is an axis of the
  array) that has a target for every spatial axis of the array: a positive one in
  dynamic mode, and in fixed mode one that is not below the extent and that is 0 where
  the extent is 0 (symmetric padding cannot extend an axis without elements). Then for
  every side selection, for all axes or one per axis, \<open>pad\<close> returns a padded array and a
  crop, and the crop applied to the padded array gives the original array back.
\<close>

theorem pad_round_trip:
  assumes wf: "well_formed im" and nd: "length (shape im) = length axes" and d: "distinct axes"
    and ne: "axes \<noteq> []"
    and md: "mode p = None \<or> mode p = Some ''dynamic'' \<or> mode p = Some ''fixed''"
    and guard: "dict_len (targets p) = (if CHR ''z'' \<in> set axes then 3 else 2)"
    and tg: "\<forall>i<length axes. spatial (axes ! i) \<longrightarrow>
        (\<exists>t. map_of (targets p) (axes ! i) = Some t \<and>
           (if mode p = Some ''fixed'' then int (shape im ! i) \<le> t \<and> (shape im ! i = 0 \<longrightarrow> t = 0)
            else 0 < t))"
    and side: "\<forall>l. pr = PerAxis l \<longrightarrow> length l = length axes"
  shows "\<exists>im' crop. pad im axes p pr = Inr (im', crop) \<and>
           apply_crop \<lparr>dims = axes, array = im'\<rparr> crop = Inr \<lparr>dims = axes, array = im\<rparr>"
proof -
  define prs where "prs = (case pr of Broadcast b \<Rightarrow> replicate (length axes) (Some b) | PerAxis l \<Rightarrow> l)"
  have lprs: "length prs = length axes"
    unfolding prs_def by (rule length_sides[OF side])
  define m where "m = (case mode p of None \<Rightarrow> ''dynamic'' | Some v \<Rightarrow> v)"
  have m: "m = ''dynamic'' \<or> m = ''fixed''" unfolding m_def using md by auto
  have fx: "m = ''fixed'' \<longleftrightarrow> mode p = Some ''fixed''" unfolding m_def using md by auto
  have ax: "\<exists>w c. pad_axis m (targets p) (axes ! i, shape im ! i, prs ! i) = Inr (w, c)
                \<and> 0 \<le> fst w \<and> 0 \<le> snd w \<and> (shape im ! i = 0 \<longrightarrow> w = (0, 0))"
    if i: "i < length axes" for i
  proof (cases "spatial (axes ! i)")
    case False
    then show ?thesis by (simp add: pad_axis_nonspatial)
  next
    case True
    then obtain t where t: "map_of (targets p) (axes ! i) = Some t"
      and tt: "if mode p = Some ''fixed'' then int (shape im ! i) \<le> t \<and> (shape im ! i = 0 \<longrightarrow> t = 0)
               else 0 < t"
      using tg i by blast
    show ?thesis
    proof (cases "m = ''fixed''")
      case True
      with tt fx have "int (shape im ! i) \<le> t" "shape im ! i = 0 \<longrightarrow> t = 0" by auto
      then show ?thesis
        using True pad_axis_fixed[OF \<open>spatial (axes ! i)\<close> t, of "shape im ! i" "prs ! i"] by auto
    next
      case False
      then have dyn: "m = ''dynamic''" using m by simp
      from False tt fx have t0: "0 < t" by auto
      then have "int (shape im ! i) mod t \<le> t"
        using pos_mod_bound[of t "int (shape im ! i)"] by linarith
      then show ?thesis
        using t0 pad_axis_dynamic[OF \<open>spatial (axes ! i)\<close> t, of "shape im ! i" "prs ! i"]
        unfolding dyn by auto
    qed
  qed
  obtain im' crop where run: "pad im axes p pr = Inr (im', crop)"
    using pad_total[OF nd m_def m guard prs_def lprs ne] ax by blast
  show ?thesis
    using run pad_crop_inverse[OF wf d side run] by blast
qed

text \<open>Dynamic padding of a \<open>2 \<times> 3\<close> image to multiples of 4.\<close>

theorem pad_dynamic_law_example:
  "\<exists>im' crop.
     pad \<lparr>shape = [1, 1, 2, 3], data = [1, 2, 3, 4, 5, 6 :: int], dtype = ''uint8''\<rparr> ''bcyx''
       \<lparr>mode = Some ''dynamic'', targets = [(CHR ''y'', 4), (CHR ''x'', 4)]\<rparr> (Broadcast True)
       = Inr (im', crop) \<and>
     shape im' ! 0 = 1 \<and> shape im' ! 1 = 1 \<and> shape im' ! 2 = 4 \<and> shape im' ! 3 = 4"
proof -
  let ?im = "\<lparr>shape = [1, 1, 2, 3], data = [1, 2, 3, 4, 5, 6 :: int], dtype = ''uint8''\<rparr>"
  let ?p = "\<lparr>mode = Some ''dynamic'', targets = [(CHR ''y'', 4), (CHR ''x'', 4)]\<rparr>"
  have h1: "length (shape ?im) = length ''bcyx''" by simp
  have h2: "mode ?p = None \<or> mode ?p = Some ''dynamic''" by simp
  have h3: "dict_len (targets ?p) = (if CHR ''z'' \<in> set ''bcyx'' then 3 else 2)"
    by (simp add: dict_len_def)
  have h4: "\<forall>ax\<in>set ''bcyx''. spatial ax \<longrightarrow> map_of (targets ?p) ax = Some ((\<lambda>ax. 4) ax) \<and> 0 < (\<lambda>ax. 4::int) ax"
    by (simp add: spatial_def)
  have h5: "''bcyx'' \<noteq> []" by simp
  have h6: "\<forall>l. Broadcast True = PerAxis l \<longrightarrow> length l = length ''bcyx''" by simp
  from pad_dynamic_law[OF h1 h2 h3 h4 h5 h6]
  obtain im' crop where run: "pad ?im ''bcyx'' ?p (Broadcast True) = Inr (im', crop)"
    and ax: "\<And>i. i < length ''bcyx'' \<Longrightarrow>
        (spatial (''bcyx'' ! i) \<longrightarrow>
           int (shape im' ! i) = int (shape ?im ! i) +
             (if int (shape ?im ! i) mod 4 = 0 then 0 else 4 - int (shape ?im ! i) mod 4)) \<and>
        (\<not> spatial (''bcyx'' ! i) \<longrightarrow> shape im' ! i = shape ?im ! i)"
    by blast
  from ax[of 0] ax[of 1] ax[of 2] ax[of 3]
  have "shape im' ! 0 = 1 \<and> shape im' ! 1 = 1 \<and> shape im' ! 2 = 4 \<and> shape im' ! 3 = 4"
    by (simp add: spatial_def)
  with run show ?thesis by blast
qed

text \<open>
  An array with one spatial axis and a positive target for it: the assertion on the number
  of targets fails, and no padded array is returned.
\<close>

theorem pad_dynamic_law_counterexample:
  "pad \<lparr>shape = [1, 1, 5], data = [1, 2, 3, 4, 5 :: int], dtype = ''uint8''\<rparr> ''bcx''
     \<lparr>mode = Some ''dynamic'', targets = [(CHR ''x'', 4)]\<rparr> (Broadcast True)
   = Inl AssertionError"
  by (simp add: pad_def dict_len_def)

text \<open>Fixed padding of a \<open>2 \<times> 3\<close> image to \<open>4 \<times> 3\<close>, and the padding error for a target of 2.\<close>

theorem pad_fixed_law_example:
  "(\<exists>im' crop.
     pad \<lparr>shape = [1, 1, 2, 3], data = [1, 2, 3, 4, 5, 6 :: int], dtype = ''uint8''\<rparr> ''bcyx''
       \<lparr>mode = Some ''fixed'', targets = [(CHR ''y'', 4), (CHR ''x'', 3)]\<rparr> (Broadcast False)
       = Inr (im', crop) \<and>
     shape im' ! 0 = 1 \<and> shape im' ! 1 = 1 \<and> shape im' ! 2 = 4 \<and> shape im' ! 3 = 3) \<and>
   pad \<lparr>shape = [1, 1, 2, 3], data = [1, 2, 3, 4, 5, 6 :: int], dtype = ''uint8''\<rparr> ''bcyx''
       \<lparr>mode = Some ''fixed'', targets = [(CHR ''y'', 4), (CHR ''x'', 2)]\<rparr> (Broadcast False)
     = Inl RuntimeError"
proof -
  let ?im = "\<lparr>shape = [1, 1, 2, 3], data = [1, 2, 3, 4, 5, 6 :: int], dtype = ''uint8''\<rparr>"
  let ?p = "\<lparr>mode = Some ''fixed'', targets = [(CHR ''y'', 4), (CHR ''x'', 3)]\<rparr>"
  let ?q = "\<lparr>mode = Some ''fixed'', targets = [(CHR ''y'', 4), (CHR ''x'', 2)]\<rparr>"
  let ?tp = "\<lambda>ax. if ax = CHR ''y'' then 4 else (3::int)"
  let ?tq = "\<lambda>ax. if ax = CHR ''y'' then 4 else (2::int)"
  have h1: "length (shape ?im) = length ''bcyx''" by simp
  have h2: "mode ?p = Some ''fixed''" "mode ?q = Some ''fixed''" by simp_all
  have h3: "dict_len (targets ?p) = (if CHR ''z'' \<in> set ''bcyx'' then 3 else 2)"
    "dict_len (targets ?q) = (if CHR ''z'' \<in> set ''bcyx'' then 3 else 2)"
    by (simp_all add: dict_len_def)
  have h4: "\<forall>ax\<in>set ''bcyx''. spatial ax \<longrightarrow> map_of (targets ?p) ax = Some (?tp ax)"
    "\<forall>ax\<in>set ''bcyx''. spatial ax \<longrightarrow> map_of (targets ?q) ax = Some (?tq ax)"
    by (simp_all add: spatial_def)
  have h5: "''bcyx'' \<noteq> []" by simp
  have h6: "\<forall>l. Broadcast False = PerAxis l \<longrightarrow> length l = length ''bcyx''" by simp
  have fits: "\<forall>i<length ''bcyx''. spatial (''bcyx'' ! i) \<longrightarrow>
      int (shape ?im ! i) \<le> ?tp (''bcyx'' ! i) \<and> (shape ?im ! i = 0 \<longrightarrow> ?tp (''bcyx'' ! i) = 0)"
    by (auto simp: less_Suc_eq eval_nat_numeral spatial_def)
  from pad_fixed_law[OF h1 h2(1) h3(1) h4(1) h5 h6] fits
  obtain im' crop where run: "pad ?im ''bcyx'' ?p (Broadcast False) = Inr (im', crop)"
    and ax: "\<And>i. i < length ''bcyx'' \<Longrightarrow>
        (spatial (''bcyx'' ! i) \<longrightarrow> int (shape im' ! i) = ?tp (''bcyx'' ! i)) \<and>
        (\<not> spatial (''bcyx'' ! i) \<longrightarrow> shape im' ! i = shape ?im ! i)"
    by blast
  from ax[of 0] ax[of 1] ax[of 2] ax[of 3]
  have "shape im' ! 0 = 1 \<and> shape im' ! 1 = 1 \<and> shape im' ! 2 = 4 \<and> shape im' ! 3 = 3"
    by (simp add: spatial_def)
  with run have 1: "\<exists>im' crop. pad ?im ''bcyx'' ?p (Broadcast False) = Inr (im', crop) \<and>
     shape im' ! 0 = 1 \<and> shape im' ! 1 = 1 \<and> shape im' ! 2 = 4 \<and> shape im' ! 3 = 3"
    by blast
  have "spatial (''bcyx'' ! 3) \<and> ?tq (''bcyx'' ! 3) < int (shape ?im ! 3)"
    by (simp add: spatial_def)
  then have "\<exists>i<length ''bcyx''. spatial (''bcyx'' ! i) \<and> ?tq (''bcyx'' ! i) < int (shape ?im ! i)"
    by (intro exI[of _ 3]) simp
  with pad_fixed_law[OF h1 h2(2) h3(2) h4(2) h5 h6]
  have 2: "pad ?im ''bcyx'' ?q (Broadcast False) = Inl RuntimeError" by blast
  from 1 2 show ?thesis by blast
qed

text \<open>
  With one spatial axis the assertion on the number of targets fails, whether the target
  is above the extent (no array of the target extent is returned) or below it (the error
  is not the padding error); and an axis without elements cannot grow to its target.
\<close>

theorem pad_fixed_law_counterexample:
  "pad \<lparr>shape = [1, 1, 5], data = [1, 2, 3, 4, 5 :: int], dtype = ''uint8''\<rparr> ''bcx''
     \<lparr>mode = Some ''fixed'', targets = [(CHR ''x'', 8)]\<rparr> (Broadcast True)
   = Inl AssertionError \<and>
   pad \<lparr>shape = [1, 1, 5], data = [1, 2, 3, 4, 5 :: int], dtype = ''uint8''\<rparr> ''bcx''
     \<lparr>mode = Some ''fixed'', targets = [(CHR ''x'', 2)]\<rparr> (Broadcast True)
   = Inl AssertionError \<and>
   pad \<lparr>shape = [1, 1, 0, 4], data = ([] :: int list), dtype = ''uint8''\<rparr> ''bcyx''
     \<lparr>mode = Some ''fixed'', targets = [(CHR ''y'', 4), (CHR ''x'', 4)]\<rparr> (Broadcast True)
   = Inl ValueError"
  by (simp add: pad_def dict_len_def pad_axis_def pad_amount_def getitem_def spatial_def np_pad_def)

text \<open>A \<open>2 \<times> 3\<close> image padded to \<open>4 \<times> 4\<close>, below on \<open>y\<close> and in front on \<open>x\<close>.\<close>

theorem pad_round_trip_example:
  "\<exists>im' crop.
     pad \<lparr>shape = [1, 1, 2, 3], data = [1, 2, 3, 4, 5, 6 :: int], dtype = ''uint8''\<rparr> ''bcyx''
       \<lparr>mode = Some ''fixed'', targets = [(CHR ''y'', 4), (CHR ''x'', 4)]\<rparr>
       (PerAxis [None, None, Some True, Some False])
       = Inr (im', crop) \<and>
     apply_crop \<lparr>dims = ''bcyx'', array = im'\<rparr> crop =
       Inr \<lparr>dims = ''bcyx'',
            array = \<lparr>shape = [1, 1, 2, 3], data = [1, 2, 3, 4, 5, 6 :: int], dtype = ''uint8''\<rparr>\<rparr>"
proof -
  let ?im = "\<lparr>shape = [1, 1, 2, 3], data = [1, 2, 3, 4, 5, 6 :: int], dtype = ''uint8''\<rparr>"
  let ?p = "\<lparr>mode = Some ''fixed'', targets = [(CHR ''y'', 4), (CHR ''x'', 4)]\<rparr>"
  have h1: "well_formed ?im" by (simp add: well_formed_def)
  have h2: "length (shape ?im) = length ''bcyx''" by simp
  have h3: "distinct ''bcyx''" by simp
  have h4: "''bcyx'' \<noteq> []" by simp
  have h5: "mode ?p = None \<or> mode ?p = Some ''dynamic'' \<or> mode ?p = Some ''fixed''" by simp
  have h6: "dict_len (targets ?p) = (if CHR ''z'' \<in> set ''bcyx'' then 3 else 2)"
    by (simp add: dict_len_def)
  have h7: "\<forall>i<length ''bcyx''. spatial (''bcyx'' ! i) \<longrightarrow>
        (\<exists>t. map_of (targets ?p) (''bcyx'' ! i) = Some t \<and>
           (if mode ?p = Some ''fixed'' then int (shape ?im ! i) \<le> t \<and> (shape ?im ! i = 0 \<longrightarrow> t = 0)
            else 0 < t))"
    by (auto simp: less_Suc_eq eval_nat_numeral spatial_def)
  have h8: "\<forall>l. PerAxis [None, None, Some True, Some False] = PerAxis l \<longrightarrow> length l = length ''bcyx''"
    by simp
  show ?thesis by (rule pad_round_trip[OF h1 h2 h3 h4 h5 h6 h7 h8])
qed

text \<open>
  With one spatial axis the assertion on the number of targets fails, and an axis without
  elements cannot grow: in both cases there is no padded array to crop.
\<close>

theorem pad_round_trip_counterexample:
  "pad \<lparr>shape = [1, 1, 3], data = [1, 2, 3 :: int], dtype = ''uint8''\<rparr> ''bcx''
     \<lparr>mode = Some ''fixed'', targets = [(CHR ''x'', 4)]\<rparr> (Broadcast False)
   = Inl AssertionError \<and>
   pad \<lparr>shape = [1, 1, 0, 4], data = ([] :: int list), dtype = ''uint8''\<rparr> ''bcyx''
     \<lparr>mode = Some ''fixed'', targets = [(CHR ''y'', 2), (CHR ''x'', 4)]\<rparr> (Broadcast False)
   = Inl ValueError"
  by (simp add: pad_def dict_len_def pad_axis_def pad_amount_def getitem_def spatial_def np_pad_def)

subsection \<open>The windows of a tile, axis by axis\<close>


lemma filter_nth_index:
  assumes "i < length xs" and "P (xs ! i)"
  shows "length (filter P (take i xs)) < length (filter P xs)"
    and "filter P xs ! length (filter P (take i xs)) = xs ! i"
proof -
  have "xs = take i xs @ xs ! i # drop (Suc i) xs"
    using assms(1) by (simp add: id_take_nth_drop)
  then have "filter P xs = filter P (take i xs) @ xs ! i # filter P (drop (Suc i) xs)"
    using assms(2) by (metis filter.simps(2) filter_append)
  then show "length (filter P (take i xs)) < length (filter P xs)"
    and "filter P xs ! length (filter P (take i xs)) = xs ! i"
    by (simp_all add: nth_append)
qed

lemma spatial_index:
  assumes "i < length ds" and "spatial (ds ! i)"
  shows "spatial_index ds i < length (filter spatial ds)"
    and "filter spatial ds ! spatial_index ds i = ds ! i"
  unfolding spatial_index_def using filter_nth_index[of i ds spatial] assms by simp_all

lemma filter_zip_snd:
  "length xs = length ys \<Longrightarrow> map snd (filter (\<lambda>(x, y). P y) (zip xs ys)) = filter P ys"
  by (induction xs ys rule: list_induct2) auto

lemma spatial_shape_index:
  assumes len: "length shp = length ds" and i: "i < length ds" and sp: "spatial (ds ! i)"
  shows "spatial_shape shp ds ! spatial_index ds i = shp ! i"
proof -
  let ?P = "\<lambda>(sh, ax). spatial ax"
  have iz: "i < length (zip shp ds)" using len i by simp
  have pz: "?P (zip shp ds ! i)" using len i sp by simp
  have "map snd (filter ?P (take i (zip shp ds))) = filter spatial (take i ds)"
    using len filter_zip_snd[of "take i shp" "take i ds" spatial] by (simp add: take_zip)
  then have "length (filter ?P (take i (zip shp ds))) = spatial_index ds i"
    unfolding spatial_index_def by (metis length_map)
  then have "filter ?P (zip shp ds) ! spatial_index ds i = zip shp ds ! i"
    using filter_nth_index(2)[of i "zip shp ds" ?P] iz pz by simp
  moreover have "spatial_index ds i < length (filter ?P (zip shp ds))"
    using filter_nth_index(1)[of i "zip shp ds" ?P] iz pz \<open>length (filter ?P (take i (zip shp ds))) = spatial_index ds i\<close>
    by simp
  ultimately show ?thesis
    unfolding spatial_shape_def using len i by simp
qed

lemma tile_windows_at:
  assumes len: "length sh = length ds" and d: "distinct ds"
    and l2: "length tshs = length (filter spatial ds)"
    and l3: "length has = length (filter spatial ds)"
    and l4: "length v = length (filter spatial ds)"
    and i: "i < length ds" and sp: "spatial (ds ! i)"
    and t: "t = make_tile (filter spatial ds) (spatial_shape (map int sh) ds) tshs has v"
  shows "outer_of t (ds ! i) =
           Some (Slice (Some (outer_start ds tshs has v i)) (Some (outer_stop ds sh tshs has v i)))"
    and "inner_of t (ds ! i) =
           Some (Slice (Some (tile_pos ds tshs v i)) (Some (inner_stop ds sh tshs v i)))"
    and "local_of t (ds ! i) =
           Some (Slice (Some (tile_pos ds tshs v i - outer_start ds tshs has v i))
             (if outer_stop ds sh tshs has v i \<noteq> inner_stop ds sh tshs v i
              then Some (- (outer_stop ds sh tshs has v i - inner_stop ds sh tshs v i)) else None))"
proof -
  let ?axs = "filter spatial ds"
  let ?j = "spatial_index ds i"
  have j: "?j < length ?axs" and aj: "?axs ! ?j = ds ! i"
    using spatial_index[OF i sp] by simp_all
  have dax: "distinct ?axs" and spx: "\<forall>ax\<in>set ?axs. spatial ax" using d by auto
  have l1: "length (spatial_shape (map int sh) ds) = length ?axs"
    using len by (intro length_spatial_shape) simp
  have e: "spatial_shape (map int sh) ds ! ?j = int (sh ! i)"
    using spatial_shape_index[of "map int sh" ds i] len i sp by simp
  note w = make_tile_windows[OF dax spx l1 l2 l3 l4 j, unfolded aj e, folded t]
  show "outer_of t (ds ! i) =
           Some (Slice (Some (outer_start ds tshs has v i)) (Some (outer_stop ds sh tshs has v i)))"
    using w(1) by (simp add: outer_start_def outer_stop_def tile_pos_def)
  show "inner_of t (ds ! i) =
           Some (Slice (Some (tile_pos ds tshs v i)) (Some (inner_stop ds sh tshs v i)))"
    using w(2) by (simp add: inner_stop_def tile_pos_def)
  show "local_of t (ds ! i) =
           Some (Slice (Some (tile_pos ds tshs v i - outer_start ds tshs has v i))
             (if outer_stop ds sh tshs has v i \<noteq> inner_stop ds sh tshs v i
              then Some (- (outer_stop ds sh tshs has v i - inner_stop ds sh tshs v i)) else None))"
    using w(3) by (simp add: outer_start_def outer_stop_def inner_stop_def tile_pos_def)
qed

lemma tile_windows_nonspatial:
  assumes "\<not> spatial ax"
    and t: "t = make_tile axs ext tshs has v"
    and sp: "\<forall>a\<in>set axs. spatial a"
  shows "outer_of t ax = None \<or> outer_of t ax = Some (Slice None None)"
    and "inner_of t ax = None \<or> inner_of t ax = Some (Slice None None)"
    and "local_of t ax = None \<or> local_of t ax = Some (Slice None None)"
proof -
  have "ax \<notin> set axs" using assms(1) sp by auto
  then show "outer_of t ax = None \<or> outer_of t ax = Some (Slice None None)"
    and "inner_of t ax = None \<or> inner_of t ax = Some (Slice None None)"
    and "local_of t ax = None \<or> local_of t ax = Some (Slice None None)"
    unfolding t by (simp_all add: make_tile_def outer_of_def inner_of_def local_of_def Let_def)
qed

lemma tile_dom:
  assumes t: "t = make_tile axs ext tshs has v"
    and "length ext = length axs" "length tshs = length axs" "length has = length axs"
      "length v = length axs"
  shows "dom (outer_of t) = set axs \<union> {CHR ''b'', CHR ''c''}"
    and "dom (inner_of t) = set axs \<union> {CHR ''b'', CHR ''c''}"
    and "dom (local_of t) = set axs \<union> {CHR ''b'', CHR ''c''}"
  unfolding t using assms(2-)
  by (auto simp: make_tile_def outer_of_def inner_of_def local_of_def Let_def dom_map_upds)

lemma tile_pos_less:
  fixes k n tsh :: int
  assumes "0 < tsh" and "k \<le> \<lceil>real_of_int n / real_of_int tsh\<rceil> - 1"
  shows "k * tsh < n"
proof -
  have "real_of_int (\<lceil>real_of_int n / real_of_int tsh\<rceil> - 1) * real_of_int tsh < real_of_int n"
    using ceiling_divide_lower[of "real_of_int tsh" "real_of_int n"] assms(1) by simp
  then have "(\<lceil>real_of_int n / real_of_int tsh\<rceil> - 1) * tsh < n"
    by (metis of_int_less_iff of_int_mult)
  moreover have "k * tsh \<le> (\<lceil>real_of_int n / real_of_int tsh\<rceil> - 1) * tsh"
    using assms by (intro mult_right_mono) auto
  ultimately show ?thesis by linarith
qed

lemma tile_indices_D:
  assumes len: "length sh = length ds"
    and l2: "length tshs = length (filter spatial ds)"
    and v: "v \<in> set (tile_indices ds sh tshs)"
  shows "length v = length (filter spatial ds)"
    and "\<And>i. i < length ds \<Longrightarrow> spatial (ds ! i) \<Longrightarrow>
           0 \<le> v ! spatial_index ds i \<and>
           v ! spatial_index ds i \<le>
             \<lceil>real_of_int (int (sh ! i)) / real_of_int (tshs ! spatial_index ds i)\<rceil> - 1"
proof -
  let ?ext = "spatial_shape (map int sh) ds"
  have l1: "length ?ext = length (filter spatial ds)"
    using len by (intro length_spatial_shape) simp
  show lv: "length v = length (filter spatial ds)"
    using v l1 l2 unfolding tile_indices_def by (simp add: in_product_lists_iff)
  fix i assume i: "i < length ds" and sp: "spatial (ds ! i)"
  let ?j = "spatial_index ds i"
  have j: "?j < length (filter spatial ds)" using spatial_index(1)[OF i sp] .
  have e: "?ext ! ?j = int (sh ! i)"
    using spatial_shape_index[of "map int sh" ds i] len i sp by simp
  have "v ! ?j \<in> set (py_range \<lceil>real_of_int (?ext ! ?j) / real_of_int (tshs ! ?j)\<rceil>)"
    using v l1 l2 j unfolding tile_indices_def by (auto simp: in_product_lists_iff)
  then show "0 \<le> v ! ?j \<and> v ! ?j \<le> \<lceil>real_of_int (int (sh ! i)) / real_of_int (tshs ! ?j)\<rceil> - 1"
    unfolding e by (simp add: set_py_range)
qed

lemma window_bounds:
  assumes len: "length sh = length ds"
    and l2: "length tshs = length (filter spatial ds)"
    and l3: "length has = length (filter spatial ds)"
    and pos: "\<forall>t\<in>set tshs. 0 < t" and hal: "\<forall>h\<in>set has. 0 \<le> h"
    and v: "v \<in> set (tile_indices ds sh tshs)"
    and i: "i < length ds" and sp: "spatial (ds ! i)"
  shows "0 \<le> outer_start ds tshs has v i"
    and "outer_start ds tshs has v i \<le> tile_pos ds tshs v i"
    and "tile_pos ds tshs v i < inner_stop ds sh tshs v i"
    and "inner_stop ds sh tshs v i \<le> outer_stop ds sh tshs has v i"
    and "outer_stop ds sh tshs has v i \<le> int (sh ! i)"
    and "outer_stop ds sh tshs has v i - outer_start ds tshs has v i
           \<le> tshs ! spatial_index ds i + 2 * has ! spatial_index ds i"
proof -
  let ?j = "spatial_index ds i"
  have j: "?j < length (filter spatial ds)" using spatial_index(1)[OF i sp] .
  have t: "0 < tshs ! ?j" using pos j l2 by simp
  have h: "0 \<le> has ! ?j" using hal j l3 by simp
  have v0: "0 \<le> v ! ?j" and v1: "v ! ?j \<le> \<lceil>real_of_int (int (sh ! i)) / real_of_int (tshs ! ?j)\<rceil> - 1"
    using tile_indices_D(2)[OF len l2 v i sp] by simp_all
  have p0: "0 \<le> tile_pos ds tshs v i"
    unfolding tile_pos_def using v0 t by simp
  have p1: "tile_pos ds tshs v i < int (sh ! i)"
    unfolding tile_pos_def using tile_pos_less[OF t v1] .
  show "0 \<le> outer_start ds tshs has v i" by (simp add: outer_start_def)
  show "outer_start ds tshs has v i \<le> tile_pos ds tshs v i"
    using p0 h by (simp add: outer_start_def)
  show "tile_pos ds tshs v i < inner_stop ds sh tshs v i"
    using p1 t by (simp add: inner_stop_def)
  show "inner_stop ds sh tshs v i \<le> outer_stop ds sh tshs has v i"
    using h by (simp add: inner_stop_def outer_stop_def)
  show "outer_stop ds sh tshs has v i \<le> int (sh ! i)"
    by (simp add: outer_stop_def)
  show "outer_stop ds sh tshs has v i - outer_start ds tshs has v i
           \<le> tshs ! ?j + 2 * has ! ?j"
    by (simp add: outer_stop_def outer_start_def)
qed

subsection \<open>The windows of every tile\<close>

lemma filter_positions:
  "map ((!) xs) (filter (\<lambda>i. P (xs ! i)) [0..<length xs]) = filter P xs"
proof -
  have "filter P xs = filter P (map ((!) xs) [0..<length xs])" by (simp add: map_nth)
  also have "\<dots> = map ((!) xs) (filter (P \<circ> (!) xs) [0..<length xs])" by (simp only: filter_map)
  finally show ?thesis by (simp add: comp_def)
qed

lemma spatial_positions:
  assumes j: "j < length (filter (\<lambda>i. spatial (ds ! i)) [0..<length ds])"
  defines "i \<equiv> filter (\<lambda>i. spatial (ds ! i)) [0..<length ds] ! j"
  shows "i < length ds" and "spatial (ds ! i)" and "spatial_index ds i = j"
proof -
  let ?ps = "filter (\<lambda>i. spatial (ds ! i)) [0..<length ds]"
  have "i \<in> set ?ps" unfolding i_def using j by (rule nth_mem)
  then show i: "i < length ds" and sp: "spatial (ds ! i)" by simp_all
  have m: "map ((!) ds) ?ps = filter spatial ds" by (rule filter_positions)
  have l: "length ?ps = length (filter spatial ds)" using m by (metis length_map)
  have tk: "filter (\<lambda>i. spatial (ds ! i)) [0..<i] = take (spatial_index ds i) ?ps"
  proof -
    have "[0..<length ds] = [0..<i] @ [i..<length ds]"
      using i by (metis le_add_diff_inverse less_imp_le upt_add_eq_append zero_le)
    then have ps: "?ps = filter (\<lambda>i. spatial (ds ! i)) [0..<i]
                   @ filter (\<lambda>i. spatial (ds ! i)) [i..<length ds]"
      by (metis filter_append)
    have "map ((!) (take i ds)) (filter (\<lambda>k. spatial (take i ds ! k)) [0..<length (take i ds)])
        = filter spatial (take i ds)"
      by (rule filter_positions)
    moreover have "filter (\<lambda>k. spatial (take i ds ! k)) [0..<length (take i ds)]
        = filter (\<lambda>k. spatial (ds ! k)) [0..<i]"
      using i by (intro filter_cong) (simp_all add: min_def)
    ultimately have "length (filter (\<lambda>k. spatial (ds ! k)) [0..<i]) = spatial_index ds i"
      unfolding spatial_index_def by (metis length_map)
    then show ?thesis using ps by (metis append_eq_conv_conj)
  qed
  have "?ps ! spatial_index ds i = i"
  proof -
    have "[0..<length ds] = [0..<i] @ i # [Suc i..<length ds]"
      using i by (metis le_add_diff_inverse less_imp_le upt_add_eq_append upt_conv_Cons zero_le)
    then have "?ps = filter (\<lambda>i. spatial (ds ! i)) [0..<i]
                   @ i # filter (\<lambda>i. spatial (ds ! i)) [Suc i..<length ds]"
      using sp by (metis filter.simps(2) filter_append)
    moreover have "length (filter (\<lambda>i. spatial (ds ! i)) [0..<i]) = spatial_index ds i"
      using tk spatial_index(1)[OF i sp] l by simp
    ultimately show ?thesis by (metis nth_append_length)
  qed
  moreover have "distinct ?ps" by simp
  moreover have "spatial_index ds i < length ?ps" using spatial_index(1)[OF i sp] l by simp
  ultimately show "spatial_index ds i = j"
    using j unfolding i_def by (metis nth_eq_iff_index_eq)
qed

lemma spatial_positions_map:
  assumes len: "length shp = length ds" and l2: "length tshs = length (filter spatial ds)"
  shows "map (\<lambda>(sh, tsh). g sh tsh) (zip (spatial_shape shp ds) tshs)
       = map (\<lambda>i. g (shp ! i) (tshs ! spatial_index ds i))
           (filter (\<lambda>i. spatial (ds ! i)) [0..<length ds])"
proof (rule nth_equalityI)
  let ?ps = "filter (\<lambda>i. spatial (ds ! i)) [0..<length ds]"
  have l: "length ?ps = length (filter spatial ds)"
    using filter_positions[of ds spatial] by (metis length_map)
  have l1: "length (spatial_shape shp ds) = length (filter spatial ds)"
    by (rule length_spatial_shape[OF len])
  show "length (map (\<lambda>(sh, tsh). g sh tsh) (zip (spatial_shape shp ds) tshs))
      = length (map (\<lambda>i. g (shp ! i) (tshs ! spatial_index ds i)) ?ps)"
    using l l1 l2 by simp
  fix j assume "j < length (map (\<lambda>(sh, tsh). g sh tsh) (zip (spatial_shape shp ds) tshs))"
  then have j: "j < length ?ps" using l l1 l2 by simp
  note P = spatial_positions[OF j]
  have "spatial_shape shp ds ! j = shp ! (?ps ! j)"
    using spatial_shape_index[OF len P(1) P(2)] P(3) by simp
  then show "map (\<lambda>(sh, tsh). g sh tsh) (zip (spatial_shape shp ds) tshs) ! j
      = map (\<lambda>i. g (shp ! i) (tshs ! spatial_index ds i)) ?ps ! j"
    using j l l1 l2 P(3) by simp
qed

text \<open>
  Claim C6. For positive tile extents, \<open>get_tiling\<close> yields one tile for every index vector of
  the lexicographic product of the ranges \<open>0 .. \<lceil>extent / tile\<rceil> - 1\<close> of the spatial axes, in
  that order, where the extent of an axis is the entry of the shape at the position of
  the axis among all axes. On the spatial axis at position \<open>i\<close>, which is the \<open>j\<close>-th spatial axis, with
  \<open>pos = index * tile\<close>, the outer window of the tile is
  \<open>[max (pos - halo) 0, min (pos + tile + halo) extent)\<close>, the inner window is
  \<open>[pos, min (pos + tile) extent)\<close>, and the local window starts at the difference of the two
  starts and is open-ended exactly when the two stops agree, and ends at the negated
  difference of the stops otherwise.
\<close>

theorem get_tiling_windows:
  assumes len: "length shp = length input_axes" and d: "distinct input_axes"
    and ts: "map tile_shape (filter spatial input_axes) = map Some tshs"
    and hs: "map hal (filter spatial input_axes) = map Some has"
    and pos: "\<forall>t\<in>set tshs. 0 < t"
    and idx: "idx = product_lists
               (map (\<lambda>i. [0 .. \<lceil>real_of_int (shp ! i)
                                 / real_of_int (tshs ! spatial_index input_axes i)\<rceil> - 1])
                  (filter (\<lambda>i. spatial (input_axes ! i)) [0..<length input_axes]))"
  shows "\<exists>tiles. get_tiling shp tile_shape hal input_axes = Inr tiles \<and>
           length tiles = length idx \<and>
           (\<forall>k<length idx. \<forall>i<length input_axes. spatial (input_axes ! i) \<longrightarrow>
              (let j = spatial_index input_axes i;
                   pos = idx ! k ! j * tshs ! j;
                   ostart = max (pos - has ! j) 0;
                   ostop = min (pos + tshs ! j + has ! j) (shp ! i);
                   istop = min (pos + tshs ! j) (shp ! i)
               in outer_of (tiles ! k) (input_axes ! i) = Some (Slice (Some ostart) (Some ostop)) \<and>
                  inner_of (tiles ! k) (input_axes ! i) = Some (Slice (Some pos) (Some istop)) \<and>
                  local_of (tiles ! k) (input_axes ! i) =
                    Some (Slice (Some (pos - ostart))
                            (if ostop \<noteq> istop then Some (- (ostop - istop)) else None))))"
proof -
  define axs where "axs = filter spatial input_axes"
  define ext where "ext = spatial_shape shp input_axes"
  let ?tiles = "map (make_tile axs ext tshs has) idx"
  have l1: "length ext = length axs"
    unfolding axs_def ext_def by (rule length_spatial_shape[OF len])
  have l2: "length tshs = length axs"
    using ts unfolding axs_def by (metis length_map)
  have l3: "length has = length axs"
    using hs unfolding axs_def by (metis length_map)
  have idx': "idx = product_lists
      (map (\<lambda>(sh, tsh). py_range \<lceil>real_of_int sh / real_of_int tsh\<rceil>) (zip ext tshs))"
    unfolding idx ext_def
    using spatial_positions_map[OF len l2[unfolded axs_def],
        of "\<lambda>sh tsh. py_range \<lceil>real_of_int sh / real_of_int tsh\<rceil>"]
    by (simp add: py_range_def)
  have run: "get_tiling shp tile_shape hal input_axes = Inr ?tiles"
    unfolding axs_def ext_def idx'[unfolded ext_def] by (rule get_tiling_eq[OF len ts hs pos])
  have dax: "distinct axs" and sp: "\<forall>ax\<in>set axs. spatial ax"
    using d unfolding axs_def by auto
  have win: "(let j = spatial_index input_axes i;
                   pos = idx ! k ! j * tshs ! j;
                   ostart = max (pos - has ! j) 0;
                   ostop = min (pos + tshs ! j + has ! j) (shp ! i);
                   istop = min (pos + tshs ! j) (shp ! i)
               in outer_of (?tiles ! k) (input_axes ! i) = Some (Slice (Some ostart) (Some ostop)) \<and>
                  inner_of (?tiles ! k) (input_axes ! i) = Some (Slice (Some pos) (Some istop)) \<and>
                  local_of (?tiles ! k) (input_axes ! i) =
                    Some (Slice (Some (pos - ostart))
                            (if ostop \<noteq> istop then Some (- (ostop - istop)) else None)))"
    if k: "k < length idx" and i: "i < length input_axes" and spi: "spatial (input_axes ! i)"
    for k i
  proof -
    let ?j = "spatial_index input_axes i"
    have j: "?j < length axs" and aj: "axs ! ?j = input_axes ! i"
      using spatial_index[OF i spi] unfolding axs_def by simp_all
    have e: "ext ! ?j = shp ! i"
      unfolding ext_def by (rule spatial_shape_index[OF len i spi])
    have "idx ! k \<in> set idx" using k by simp
    then have l4: "length (idx ! k) = length axs"
      unfolding idx' using l1 l2 by (auto dest!: in_set_product_lists_length)
    have nth: "?tiles ! k = make_tile axs ext tshs has (idx ! k)"
      using k by simp
    show ?thesis
      unfolding nth Let_def
      using make_tile_windows[OF dax sp l1 l2 l3 l4 j, unfolded aj e] by blast
  qed
  show ?thesis
    by (rule exI[of _ ?tiles]) (use run win in simp)
qed

text \<open>
  The example of the claim, as the one spatial axis of an image with a batch and a
  channel axis: extent 10, tile extent 4 and halo 2 give three tiles with the inner
  windows \<open>[0, 4)\<close>, \<open>[4, 8)\<close>, \<open>[8, 10)\<close>; the first outer window is \<open>[0, 6)\<close> and the last one
  \<open>[6, 10)\<close>.
\<close>

theorem get_tiling_windows_example:
  "\<exists>tiles. get_tiling [1, 1, 10] [CHR ''x'' \<mapsto> 4] [CHR ''x'' \<mapsto> 2] ''bcx'' = Inr tiles \<and>
     length tiles = 3 \<and>
     map (\<lambda>t. inner_of t (CHR ''x'')) tiles =
       [Some (Slice (Some 0) (Some 4)), Some (Slice (Some 4) (Some 8)), Some (Slice (Some 8) (Some 10))] \<and>
     outer_of (tiles ! 0) (CHR ''x'') = Some (Slice (Some 0) (Some 6)) \<and>
     outer_of (tiles ! 2) (CHR ''x'') = Some (Slice (Some 6) (Some 10)) \<and>
     local_of (tiles ! 0) (CHR ''x'') = Some (Slice (Some 0) (Some (- 2))) \<and>
     local_of (tiles ! 2) (CHR ''x'') = Some (Slice (Some 2) None)"
proof -
  have h1: "length [1, 1, 10::int] = length ''bcx''" by simp
  have h2: "distinct ''bcx''" by simp
  have h3: "map [CHR ''x'' \<mapsto> 4::int] (filter spatial ''bcx'') = map Some [4]"
    by (simp add: spatial_def)
  have h4: "map [CHR ''x'' \<mapsto> 2::int] (filter spatial ''bcx'') = map Some [2]"
    by (simp add: spatial_def)
  have h5: "\<forall>t\<in>set [4::int]. 0 < t" by simp
  have ps: "filter (\<lambda>i. spatial (''bcx'' ! i)) [0..<length ''bcx''] = [2]"
    by (simp add: spatial_def upt_rec)
  have j: "spatial_index ''bcx'' 2 = 0"
    by (simp add: spatial_index_def spatial_def eval_nat_numeral)
  have h6: "[[0], [1], [2::int]] = product_lists
      (map (\<lambda>i. [0 .. \<lceil>real_of_int ([1, 1, 10] ! i)
                        / real_of_int ([4] ! spatial_index ''bcx'' i)\<rceil> - 1])
         (filter (\<lambda>i. spatial (''bcx'' ! i)) [0..<length ''bcx'']))"
    unfolding ps by (simp add: j upto_rec1)
  from get_tiling_windows[OF h1 h2 h3 h4 h5 h6]
  obtain tiles where run: "get_tiling [1, 1, 10] [CHR ''x'' \<mapsto> 4] [CHR ''x'' \<mapsto> 2] ''bcx'' = Inr tiles"
    and n: "length tiles = length [[0], [1], [2::int]]"
    and w: "\<forall>k<length [[0], [1], [2::int]]. \<forall>i<length ''bcx''. spatial (''bcx'' ! i) \<longrightarrow>
              (let j = spatial_index ''bcx'' i;
                   pos = [[0], [1], [2]] ! k ! j * [4] ! j;
                   ostart = max (pos - [2] ! j) 0;
                   ostop = min (pos + [4] ! j + [2] ! j) ([1, 1, 10] ! i);
                   istop = min (pos + [4] ! j) ([1, 1, 10] ! i)
               in outer_of (tiles ! k) (''bcx'' ! i) = Some (Slice (Some ostart) (Some ostop)) \<and>
                  inner_of (tiles ! k) (''bcx'' ! i) = Some (Slice (Some pos) (Some istop)) \<and>
                  local_of (tiles ! k) (''bcx'' ! i) =
                    Some (Slice (Some (pos - ostart))
                            (if ostop \<noteq> istop then Some (- (ostop - istop)) else None)))"
    by blast
  have i2: "2 < length ''bcx''" and sp2: "spatial (''bcx'' ! 2)" by (simp_all add: spatial_def)
  have k3: "0 < length [[0], [1], [2::int]]" "1 < length [[0], [1], [2::int]]"
    "2 < length [[0], [1], [2::int]]" by simp_all
  have x: "''bcx'' ! 2 = CHR ''x''" by simp
  from w[rule_format, OF k3(1) i2 sp2] w[rule_format, OF k3(2) i2 sp2]
    w[rule_format, OF k3(3) i2 sp2]
  have win: "outer_of (tiles ! 0) (CHR ''x'') = Some (Slice (Some 0) (Some 6))"
    "outer_of (tiles ! 2) (CHR ''x'') = Some (Slice (Some 6) (Some 10))"
    "inner_of (tiles ! 0) (CHR ''x'') = Some (Slice (Some 0) (Some 4))"
    "inner_of (tiles ! 1) (CHR ''x'') = Some (Slice (Some 4) (Some 8))"
    "inner_of (tiles ! 2) (CHR ''x'') = Some (Slice (Some 8) (Some 10))"
    "local_of (tiles ! 0) (CHR ''x'') = Some (Slice (Some 0) (Some (- 2)))"
    "local_of (tiles ! 2) (CHR ''x'') = Some (Slice (Some 2) None)"
    unfolding x j Let_def by simp_all
  have "\<exists>a b c. tiles = [a, b, c]"
    using n by (auto simp: length_Suc_conv numeral_3_eq_3)
  then obtain a b c where abc: "tiles = [a, b, c]" by blast
  with run win show ?thesis by simp
qed

subsection \<open>Reading and writing parts of arrays\<close>

lemma slice_full [simp]:
  "slice_offset (Slice None None) n = 0" "slice_length (Slice None None) n = n"
  by (simp_all add: slice_offset_def slice_length_def slice_start_def slice_stop_def)

lemma slice_window:
  assumes "0 \<le> a" "a \<le> b" "b \<le> int n"
  shows "slice_offset (Slice (Some a) (Some b)) n = nat a"
    and "slice_length (Slice (Some a) (Some b)) n = nat (b - a)"
  using assms by (simp_all add: slice_offset_def slice_length_def slice_start_def slice_stop_def)

lemma slice_local:
  assumes "0 \<le> a" "0 \<le> k" "a + k \<le> int n"
  shows "slice_offset (Slice (Some a) (if k \<noteq> 0 then Some (- k) else None)) n = nat a"
    and "slice_length (Slice (Some a) (if k \<noteq> 0 then Some (- k) else None)) n = nat (int n - k - a)"
  using assms by (auto simp: slice_offset_def slice_length_def slice_start_def slice_stop_def)

lemma length_key_of_dict [simp]: "length (key_of_dict d ds) = length ds"
  by (simp add: key_of_dict_def)

lemma xr_getitem_eq:
  assumes "dom d \<subseteq> set (dims da)" and "length (dims da) = length (shape (array da))"
  shows "xr_getitem da d =
     Inr (da\<lparr>array := tabulate (map2 slice_length (key_of_dict d (dims da)) (shape (array da)))
            (dtype (array da))
            (\<lambda>idx. item (array da)
               (map2 (+) (map2 slice_offset (key_of_dict d (dims da)) (shape (array da))) idx))\<rparr>)"
  using assms by (simp add: xr_getitem_def nd_getitem_full)

lemma broadcastable_same: "broadcastable vs vs"
  by (auto simp: broadcastable_def list_all_iff in_set_zip)

lemma broadcast_index_same:
  assumes "idx \<in> set (indices vs)"
  shows "broadcast_index vs idx = idx"
proof -
  have l: "length idx = length vs" and b: "\<And>j. j < length vs \<Longrightarrow> idx ! j < vs ! j"
    using assms by (auto simp: indices_iff)
  have "(if vs ! j = 1 then 0 else idx ! j) = idx ! j" if "j < length vs" for j
    using b[OF that] by auto
  then show ?thesis
    unfolding broadcast_index_def using l by (simp add: list_eq_iff_nth_eq)
qed

lemma nd_setitem_full:
  assumes "length key = length (shape a)"
    and "shape v = map2 slice_length key (shape a)"
  shows "nd_setitem a key v =
     Inr (tabulate (shape a) (dtype a)
       (\<lambda>idx. if in_region (map2 slice_offset key (shape a)) (map2 slice_length key (shape a)) idx
          then item v (broadcast_index (shape v) (map2 (-) idx (map2 slice_offset key (shape a))))
          else item a idx))"
  using assms by (simp add: nd_setitem_def full_key_def broadcastable_same Let_def)

lemma xr_setitem_eq:
  assumes "dom d \<subseteq> set (dims da)" and "length (dims da) = length (shape (array da))"
    and "shape (array v) = map2 slice_length (key_of_dict d (dims da)) (shape (array da))"
  shows "xr_setitem da d v =
     Inr (da\<lparr>array := tabulate (shape (array da)) (dtype (array da))
       (\<lambda>idx. if in_region (map2 slice_offset (key_of_dict d (dims da)) (shape (array da)))
                    (map2 slice_length (key_of_dict d (dims da)) (shape (array da))) idx
          then item (array v) (broadcast_index (shape (array v))
                 (map2 (-) idx (map2 slice_offset (key_of_dict d (dims da)) (shape (array da)))))
          else item (array da) idx)\<rparr>)"
  using assms by (simp add: xr_setitem_def nd_setitem_full)

lemma in_region_iff:
  assumes "length idx = length offs" "length lens = length offs"
  shows "in_region offs lens idx \<longleftrightarrow> (\<forall>i<length offs. offs ! i \<le> idx ! i \<and> idx ! i < offs ! i + lens ! i)"
proof -
  have "in_region offs lens idx \<longleftrightarrow>
      (\<forall>i<length (zip idx (zip offs lens)).
         case zip idx (zip offs lens) ! i of (i, off, len) \<Rightarrow> off \<le> i \<and> i < off + len)"
    unfolding in_region_def by (simp add: list_all_length)
  then show ?thesis using assms by simp
qed

subsection \<open>The regions of a tile\<close>

lemma key_of_dict_nth:
  "i < length ds \<Longrightarrow>
   key_of_dict d ds ! i = (case d (ds ! i) of None \<Rightarrow> Slice None None | Some s \<Rightarrow> s)"
  by (simp add: key_of_dict_def)

lemma tile_keys:
  assumes len: "length sh = length ds" and d: "distinct ds"
    and l2: "length tshs = length (filter spatial ds)"
    and l3: "length has = length (filter spatial ds)"
    and pos: "\<forall>t\<in>set tshs. 0 < t" and hal: "\<forall>h\<in>set has. 0 \<le> h"
    and v: "v \<in> set (tile_indices ds sh tshs)"
    and t: "t = make_tile (filter spatial ds) (spatial_shape (map int sh) ds) tshs has v"
  shows "map2 slice_offset (key_of_dict (outer_of t) ds) sh = outer_offs ds tshs has v"
    and "map2 slice_length (key_of_dict (outer_of t) ds) sh = outer_lens ds sh tshs has v"
    and "map2 slice_offset (key_of_dict (inner_of t) ds) sh = inner_offs ds tshs v"
    and "map2 slice_length (key_of_dict (inner_of t) ds) sh = inner_lens ds sh tshs v"
    and "map2 slice_offset (key_of_dict (local_of t) ds) (outer_lens ds sh tshs has v)
           = map2 (-) (inner_offs ds tshs v) (outer_offs ds tshs has v)"
    and "map2 slice_length (key_of_dict (local_of t) ds) (outer_lens ds sh tshs has v)
           = inner_lens ds sh tshs v"
proof -
  have l4: "length v = length (filter spatial ds)"
    using tile_indices_D(1)[OF len l2 v] .
  have spx: "\<forall>a\<in>set (filter spatial ds). spatial a" by simp
  have sp: "outer_of t (ds ! i) =
           Some (Slice (Some (outer_start ds tshs has v i)) (Some (outer_stop ds sh tshs has v i)))"
      "inner_of t (ds ! i) =
           Some (Slice (Some (tile_pos ds tshs v i)) (Some (inner_stop ds sh tshs v i)))"
      "local_of t (ds ! i) =
           Some (Slice (Some (tile_pos ds tshs v i - outer_start ds tshs has v i))
             (if outer_stop ds sh tshs has v i - inner_stop ds sh tshs v i \<noteq> 0
              then Some (- (outer_stop ds sh tshs has v i - inner_stop ds sh tshs v i)) else None))"
    if "i < length ds" "spatial (ds ! i)" for i
    using tile_windows_at[OF len d l2 l3 l4 that t] by simp_all
  have ns: "key_of_dict (outer_of t) ds ! i = Slice None None"
      "key_of_dict (inner_of t) ds ! i = Slice None None"
      "key_of_dict (local_of t) ds ! i = Slice None None"
    if "i < length ds" "\<not> spatial (ds ! i)" for i
    using tile_windows_nonspatial[OF that(2) t spx] that(1)
    by (auto simp: key_of_dict_nth)
  note wb = window_bounds[OF len l2 l3 pos hal v]
  show "map2 slice_offset (key_of_dict (outer_of t) ds) sh = outer_offs ds tshs has v"
  proof (rule nth_equalityI)
    show "length (map2 slice_offset (key_of_dict (outer_of t) ds) sh) = length (outer_offs ds tshs has v)"
      using len by (simp add: outer_offs_def)
    fix i assume "i < length (map2 slice_offset (key_of_dict (outer_of t) ds) sh)"
    then have i: "i < length ds" using len by simp
    show "(map2 slice_offset (key_of_dict (outer_of t) ds) sh) ! i = (outer_offs ds tshs has v) ! i"
    proof (cases "spatial (ds ! i)")
      case True
      have "0 \<le> outer_start ds tshs has v i" "outer_start ds tshs has v i \<le> outer_stop ds sh tshs has v i" "outer_stop ds sh tshs has v i \<le> int (sh ! i)"
        using wb[OF i True] by linarith+
      then show ?thesis
        using i len True by (simp add: outer_offs_def key_of_dict_nth sp(1)[OF i True] slice_window)
    next
      case False
      then show ?thesis using i len by (simp add: outer_offs_def ns[OF i False])
    qed
  qed
  show "map2 slice_length (key_of_dict (outer_of t) ds) sh = outer_lens ds sh tshs has v"
  proof (rule nth_equalityI)
    show "length (map2 slice_length (key_of_dict (outer_of t) ds) sh) = length (outer_lens ds sh tshs has v)"
      using len by (simp add: outer_lens_def)
    fix i assume "i < length (map2 slice_length (key_of_dict (outer_of t) ds) sh)"
    then have i: "i < length ds" using len by simp
    show "(map2 slice_length (key_of_dict (outer_of t) ds) sh) ! i = (outer_lens ds sh tshs has v) ! i"
    proof (cases "spatial (ds ! i)")
      case True
      have "0 \<le> outer_start ds tshs has v i" "outer_start ds tshs has v i \<le> outer_stop ds sh tshs has v i" "outer_stop ds sh tshs has v i \<le> int (sh ! i)"
        using wb[OF i True] by linarith+
      then show ?thesis
        using i len True by (simp add: outer_lens_def key_of_dict_nth sp(1)[OF i True] slice_window)
    next
      case False
      then show ?thesis using i len by (simp add: outer_lens_def ns[OF i False])
    qed
  qed
  show "map2 slice_offset (key_of_dict (inner_of t) ds) sh = inner_offs ds tshs v"
  proof (rule nth_equalityI)
    show "length (map2 slice_offset (key_of_dict (inner_of t) ds) sh) = length (inner_offs ds tshs v)"
      using len by (simp add: inner_offs_def)
    fix i assume "i < length (map2 slice_offset (key_of_dict (inner_of t) ds) sh)"
    then have i: "i < length ds" using len by simp
    show "(map2 slice_offset (key_of_dict (inner_of t) ds) sh) ! i = (inner_offs ds tshs v) ! i"
    proof (cases "spatial (ds ! i)")
      case True
      have "0 \<le> tile_pos ds tshs v i" "tile_pos ds tshs v i \<le> inner_stop ds sh tshs v i" "inner_stop ds sh tshs v i \<le> int (sh ! i)"
        using wb[OF i True] by linarith+
      then show ?thesis
        using i len True by (simp add: inner_offs_def key_of_dict_nth sp(2)[OF i True] slice_window)
    next
      case False
      then show ?thesis using i len by (simp add: inner_offs_def ns[OF i False])
    qed
  qed
  show "map2 slice_length (key_of_dict (inner_of t) ds) sh = inner_lens ds sh tshs v"
  proof (rule nth_equalityI)
    show "length (map2 slice_length (key_of_dict (inner_of t) ds) sh) = length (inner_lens ds sh tshs v)"
      using len by (simp add: inner_lens_def)
    fix i assume "i < length (map2 slice_length (key_of_dict (inner_of t) ds) sh)"
    then have i: "i < length ds" using len by simp
    show "(map2 slice_length (key_of_dict (inner_of t) ds) sh) ! i = (inner_lens ds sh tshs v) ! i"
    proof (cases "spatial (ds ! i)")
      case True
      have "0 \<le> tile_pos ds tshs v i" "tile_pos ds tshs v i \<le> inner_stop ds sh tshs v i" "inner_stop ds sh tshs v i \<le> int (sh ! i)"
        using wb[OF i True] by linarith+
      then show ?thesis
        using i len True by (simp add: inner_lens_def key_of_dict_nth sp(2)[OF i True] slice_window)
    next
      case False
      then show ?thesis using i len by (simp add: inner_lens_def ns[OF i False])
    qed
  qed
  have loc: "slice_offset (Slice (Some (tile_pos ds tshs v i - outer_start ds tshs has v i))
             (if outer_stop ds sh tshs has v i - inner_stop ds sh tshs v i \<noteq> 0
              then Some (- (outer_stop ds sh tshs has v i - inner_stop ds sh tshs v i)) else None))
             (nat (outer_stop ds sh tshs has v i - outer_start ds tshs has v i))
           = nat (tile_pos ds tshs v i) - nat (outer_start ds tshs has v i) \<and>
         slice_length (Slice (Some (tile_pos ds tshs v i - outer_start ds tshs has v i))
             (if outer_stop ds sh tshs has v i - inner_stop ds sh tshs v i \<noteq> 0
              then Some (- (outer_stop ds sh tshs has v i - inner_stop ds sh tshs v i)) else None))
             (nat (outer_stop ds sh tshs has v i - outer_start ds tshs has v i))
           = nat (inner_stop ds sh tshs v i - tile_pos ds tshs v i)"
    if i: "i < length ds" "spatial (ds ! i)" for i
  proof -
    let ?a = "tile_pos ds tshs v i - outer_start ds tshs has v i"
    let ?k = "outer_stop ds sh tshs has v i - inner_stop ds sh tshs v i"
    let ?n = "nat (outer_stop ds sh tshs has v i - outer_start ds tshs has v i)"
    have a: "0 \<le> ?a" and k: "0 \<le> ?k" and n: "?a + ?k \<le> int ?n"
      using wb[OF i] by linarith+
    have e1: "nat (int ?n - ?k - ?a) = nat (inner_stop ds sh tshs v i - tile_pos ds tshs v i)"
      using wb[OF i] by linarith
    have e2: "nat ?a = nat (tile_pos ds tshs v i) - nat (outer_start ds tshs has v i)"
      using wb[OF i] by linarith
    show ?thesis
      using slice_local[OF a k n] unfolding e1 e2 by blast
  qed
  show "map2 slice_offset (key_of_dict (local_of t) ds) (outer_lens ds sh tshs has v)
           = map2 (-) (inner_offs ds tshs v) (outer_offs ds tshs has v)"
  proof (rule nth_equalityI)
    show "length (map2 slice_offset (key_of_dict (local_of t) ds) (outer_lens ds sh tshs has v)) = length (map2 (-) (inner_offs ds tshs v) (outer_offs ds tshs has v))"
      by (simp add: outer_lens_def inner_offs_def outer_offs_def)
    fix i assume "i < length (map2 slice_offset (key_of_dict (local_of t) ds) (outer_lens ds sh tshs has v))"
    then have i: "i < length ds" by (simp add: outer_lens_def inner_offs_def outer_offs_def)
    show "(map2 slice_offset (key_of_dict (local_of t) ds) (outer_lens ds sh tshs has v)) ! i = (map2 (-) (inner_offs ds tshs v) (outer_offs ds tshs has v)) ! i"
    proof (cases "spatial (ds ! i)")
      case True
      then show ?thesis
        using i loc[OF i True] by (simp add: outer_lens_def inner_offs_def outer_offs_def key_of_dict_nth sp(3)[OF i True])
    next
      case False
      then show ?thesis using i by (simp add: outer_lens_def inner_offs_def outer_offs_def ns[OF i False])
    qed
  qed
  show "map2 slice_length (key_of_dict (local_of t) ds) (outer_lens ds sh tshs has v)
           = inner_lens ds sh tshs v"
  proof (rule nth_equalityI)
    show "length (map2 slice_length (key_of_dict (local_of t) ds) (outer_lens ds sh tshs has v)) = length (inner_lens ds sh tshs v)"
      by (simp add: outer_lens_def inner_lens_def)
    fix i assume "i < length (map2 slice_length (key_of_dict (local_of t) ds) (outer_lens ds sh tshs has v))"
    then have i: "i < length ds" by (simp add: outer_lens_def inner_lens_def)
    show "(map2 slice_length (key_of_dict (local_of t) ds) (outer_lens ds sh tshs has v)) ! i = (inner_lens ds sh tshs v) ! i"
    proof (cases "spatial (ds ! i)")
      case True
      then show ?thesis
        using i loc[OF i True] by (simp add: outer_lens_def inner_lens_def key_of_dict_nth sp(3)[OF i True])
    next
      case False
      then show ?thesis using i by (simp add: outer_lens_def inner_lens_def ns[OF i False])
    qed
  qed
qed

subsection \<open>The padding of the tiles and the loaded tile\<close>

lemma map_Some_nth:
  "map f xs = map Some ys \<Longrightarrow> j < length xs \<Longrightarrow> f (xs ! j) = Some (ys ! j)"
  by (metis length_map nth_map)

lemma tile_padding_eq:
  assumes ts: "map tile_shape (filter spatial ds) = map Some tshs"
    and hs: "map hal (filter spatial ds) = map Some has"
  shows "tile_padding tile_shape hal ds =
     Inr \<lparr>mode = Some ''fixed'',
          targets = rev (zip (filter spatial ds) (map2 (\<lambda>t h. t + 2 * h) tshs has))\<rparr>"
proof -
  let ?axs = "filter spatial ds"
  let ?f = "\<lambda>ax. bind (getitem tile_shape ax) (\<lambda>tsh. bind (getitem hal ax) (\<lambda>ha. Inr (ax, tsh + 2 * ha)))"
  have l2: "length tshs = length ?axs" using ts by (metis length_map)
  have l3: "length has = length ?axs" using hs by (metis length_map)
  have "list_all2 (\<lambda>x y. ?f x = Inr y) ?axs (zip ?axs (map2 (\<lambda>t h. t + 2 * h) tshs has))"
    using l2 l3 map_Some_nth[OF ts] map_Some_nth[OF hs]
    by (simp add: list_all2_conv_all_nth getitem_def)
  then have "mapM ?f ?axs = Inr (zip ?axs (map2 (\<lambda>t h. t + 2 * h) tshs has))"
    by (simp add: mapM_Inr_iff)
  then show ?thesis by (simp add: tile_padding_def)
qed

lemma map_of_rev_zip_nth:
  assumes "distinct xs" "length ys = length xs" "j < length xs"
  shows "map_of (rev (zip xs ys)) (xs ! j) = Some (ys ! j)"
proof -
  have "rev (zip xs ys) = zip (rev xs) (rev ys)" using assms(2) by (simp add: zip_rev)
  moreover have "map_of (zip (rev xs) (rev ys)) (rev xs ! (length xs - 1 - j)) = Some (rev ys ! (length xs - 1 - j))"
    using assms by (intro map_of_zip_nth) auto
  moreover have "rev xs ! (length xs - 1 - j) = xs ! j" "rev ys ! (length xs - 1 - j) = ys ! j"
    using assms by (simp_all add: rev_nth)
  ultimately show ?thesis by simp
qed

lemma tile_padding_targets:
  assumes d: "distinct ds"
    and l2: "length tshs = length (filter spatial ds)"
    and l3: "length has = length (filter spatial ds)"
    and p: "p = \<lparr>mode = Some ''fixed'',
          targets = rev (zip (filter spatial ds) (map2 (\<lambda>t h. t + 2 * h) tshs has))\<rparr>"
  shows "dict_len (targets p) = length (filter spatial ds)"
    and "\<forall>k\<in>set (map fst (targets p)). k \<in> set ds"
    and "\<And>i. i < length ds \<Longrightarrow> spatial (ds ! i) \<Longrightarrow>
           map_of (targets p) (ds ! i)
             = Some (tshs ! spatial_index ds i + 2 * has ! spatial_index ds i)"
proof -
  let ?axs = "filter spatial ds"
  let ?vals = "map2 (\<lambda>t h. t + 2 * h) tshs has"
  have lv: "length ?vals = length ?axs" using l2 l3 by simp
  have keys: "map fst (targets p) = rev ?axs"
    unfolding p using lv by (simp add: rev_map[symmetric])
  have dax: "distinct ?axs" using d by simp
  show "dict_len (targets p) = length ?axs"
    unfolding dict_len_def keys using dax by (simp add: distinct_remdups_id)
  show "\<forall>k\<in>set (map fst (targets p)). k \<in> set ds"
    unfolding keys by auto
  fix i assume i: "i < length ds" and sp: "spatial (ds ! i)"
  have j: "spatial_index ds i < length ?axs" and aj: "?axs ! spatial_index ds i = ds ! i"
    using spatial_index[OF i sp] by simp_all
  have "map_of (rev (zip ?axs ?vals)) (?axs ! spatial_index ds i) = Some (?vals ! spatial_index ds i)"
    using dax lv j by (rule map_of_rev_zip_nth)
  then show "map_of (targets p) (ds ! i)
             = Some (tshs ! spatial_index ds i + 2 * has ! spatial_index ds i)"
    unfolding p aj using j l2 l3 by simp
qed

lemma load_tile_eq:
  assumes len: "length sh = length ds" and d: "distinct ds"
    and bc: "CHR ''b'' \<in> set ds" "CHR ''c'' \<in> set ds"
    and l2: "length tshs = length (filter spatial ds)"
    and l3: "length has = length (filter spatial ds)"
    and pos: "\<forall>t\<in>set tshs. 0 < t" and hal: "\<forall>h\<in>set has. 0 \<le> h"
    and v: "v \<in> set (tile_indices ds sh tshs)"
    and t: "t = make_tile (filter spatial ds) (spatial_shape (map int sh) ds) tshs has v"
    and inp: "dims input' = ds" "shape (array input') = sh"
  shows "load_tile input' (outer_of t) =
     Inr (input'\<lparr>array := tabulate (outer_lens ds sh tshs has v) (dtype (array input'))
            (\<lambda>idx. item (array input') (map2 (+) (outer_offs ds tshs has v) idx))\<rparr>,
          map (\<lambda>i. if spatial (ds ! i) then Some (outer_start ds tshs has v i = 0) else None)
            [0..<length ds])"
proof -
  have l4: "length v = length (filter spatial ds)"
    using tile_indices_D(1)[OF len l2 v] .
  have l1: "length (spatial_shape (map int sh) ds) = length (filter spatial ds)"
    using len by (intro length_spatial_shape) simp
  have dom: "dom (outer_of t) \<subseteq> set (dims input')"
    unfolding tile_dom(1)[OF t l1 l2 l3 l4] inp(1) using bc by auto
  have get: "xr_getitem input' (outer_of t) =
     Inr (input'\<lparr>array := tabulate (outer_lens ds sh tshs has v) (dtype (array input'))
            (\<lambda>idx. item (array input') (map2 (+) (outer_offs ds tshs has v) idx))\<rparr>)"
    using xr_getitem_eq[OF dom] len
    unfolding inp tile_keys(1,2)[OF len d l2 l3 pos hal v t] by simp
  let ?f = "\<lambda>ax. if spatial ax
                   then bind (getitem (outer_of t) ax) (\<lambda>s. Inr (Some (start s = Some 0)))
                   else Inr None"
  have "?f (ds ! i) = Inr (if spatial (ds ! i) then Some (outer_start ds tshs has v i = 0) else None)"
    if "i < length ds" for i
    using tile_windows_at(1)[OF len d l2 l3 l4 that _ t] by (simp add: getitem_def)
  then have "list_all2 (\<lambda>x y. ?f x = Inr y) ds
      (map (\<lambda>i. if spatial (ds ! i) then Some (outer_start ds tshs has v i = 0) else None)
            [0..<length ds])"
    by (simp add: list_all2_conv_all_nth)
  then have "mapM ?f ds = Inr (map (\<lambda>i. if spatial (ds ! i) then Some (outer_start ds tshs has v i = 0) else None)
            [0..<length ds])"
    by (simp add: mapM_Inr_iff)
  then show ?thesis
    unfolding load_tile_def get inp(1) by simp
qed

subsection \<open>Padded prediction with the identity\<close>

lemma pad_shape_length:
  assumes run: "pad im axes p pr = Inr (im', crop)"
    and side: "\<forall>l. pr = PerAxis l \<longrightarrow> length l = length axes"
  shows "length (shape im') = length axes"
proof -
  define prs where "prs = (case pr of Broadcast b \<Rightarrow> replicate (length axes) (Some b) | PerAxis l \<Rightarrow> l)"
  have lprs: "length prs = length axes"
    unfolding prs_def by (rule length_sides[OF side])
  from pad_Inr_D[OF run prs_def lprs] obtain ws m where
    nd: "length (shape im) = length axes"
    and ws: "list_all2 (\<lambda>z w. pad_axis m (targets p) z = Inr w) (zip axes (zip (shape im) prs)) ws"
    and np: "np_pad im (map fst ws) = Inr im'"
    by blast
  have lws: "length ws = length axes"
    using ws nd lprs by (auto dest: list_all2_lengthD)
  have "length (map fst ws) = length (shape im)" using lws nd by simp
  from np_pad_Inr_D[OF np this] show ?thesis using lws nd by simp
qed

lemma DataArray_eqI: "dims x = dims y \<Longrightarrow> array x = array y \<Longrightarrow> x = (y :: 'a DataArray)"
  by simp

lemma predict_with_padding_identity:
  assumes pp: "input_specs pp = [spec]" "in_axes spec = ds" "forward pp = (\<lambda>xs. xs)"
    and inp: "dims inp = ds" "well_formed (array inp)" "shape (array inp) = 1 # rest"
    and d: "distinct ds"
    and p: "mode p = Some ''fixed''" "\<forall>k\<in>set (map fst (targets p)). k \<in> set ds"
    and side: "\<forall>l. pr = PerAxis l \<longrightarrow> length l = length ds"
    and run: "pad (array inp) ds p pr = Inr (im', crop)"
  shows "predict_with_padding pp (Single inp) (Dict p) pr = Inr [inp]"
proof -
  have truth: "padding_truth (Dict p)" using p(1) by (simp add: padding_truth_def)
  have n: "len_inputs (Single inp) = Inr 1"
    using inp(3) by (simp add: len_inputs_def len_DataArray_def)
  have parse: "parse_padding (Dict p) [spec] = Inr (Some p)"
    using p(2) pp(2) by (simp add: parse_padding_def check_padding_def list_all_iff)
  have l: "length ds = length (shape im')"
    using pad_shape_length[OF run side] by simp
  have pred: "predict pp (Multiple [im']) = Inr [\<lparr>dims = ds, array = im'\<rparr>]"
    using l by (simp add: predict_def as_list_def pp DataArray_def)
  have crop: "apply_crop \<lparr>dims = ds, array = im'\<rparr> crop = Inr \<lparr>dims = ds, array = array inp\<rparr>"
    by (rule pad_crop_inverse[OF inp(2) d side run])
  have "\<lparr>dims = ds, array = array inp\<rparr> = inp" using inp(1) by simp
  then show ?thesis
    using truth n parse pred crop run
    by (simp add: predict_with_padding_def pp as_list_def)
qed

subsection \<open>One step of the tile loop with the identity\<close>

lemma region_lengths [simp]:
  "length (outer_offs ds tshs has v) = length ds"
  "length (outer_lens ds sh tshs has v) = length ds"
  "length (inner_offs ds tshs v) = length ds"
  "length (inner_lens ds sh tshs v) = length ds"
  by (simp_all add: outer_offs_def outer_lens_def inner_offs_def inner_lens_def)

lemma region_bounds:
  assumes len: "length sh = length ds"
    and l2: "length tshs = length (filter spatial ds)"
    and l3: "length has = length (filter spatial ds)"
    and pos: "\<forall>t\<in>set tshs. 0 < t" and hal: "\<forall>h\<in>set has. 0 \<le> h"
    and v: "v \<in> set (tile_indices ds sh tshs)"
    and i: "i < length ds"
  shows "outer_offs ds tshs has v ! i \<le> inner_offs ds tshs v ! i"
    and "inner_offs ds tshs v ! i + inner_lens ds sh tshs v ! i
           \<le> outer_offs ds tshs has v ! i + outer_lens ds sh tshs has v ! i"
    and "outer_offs ds tshs has v ! i + outer_lens ds sh tshs has v ! i \<le> sh ! i"
    and "spatial (ds ! i) \<Longrightarrow> 0 < outer_lens ds sh tshs has v ! i"
    and "spatial (ds ! i) \<Longrightarrow>
           int (outer_lens ds sh tshs has v ! i)
             \<le> tshs ! spatial_index ds i + 2 * has ! spatial_index ds i"
    and "\<not> spatial (ds ! i) \<Longrightarrow> outer_lens ds sh tshs has v ! i = sh ! i"
proof -
  note wb = window_bounds[OF len l2 l3 pos hal v i]
  show "outer_offs ds tshs has v ! i \<le> inner_offs ds tshs v ! i"
    using i wb by (auto simp: outer_offs_def inner_offs_def)
  show "inner_offs ds tshs v ! i + inner_lens ds sh tshs v ! i
           \<le> outer_offs ds tshs has v ! i + outer_lens ds sh tshs has v ! i"
  proof (cases "spatial (ds ! i)")
    case True
    then show ?thesis
      using i wb[OF True] by (simp add: outer_offs_def inner_offs_def outer_lens_def inner_lens_def)
  next
    case False
    then show ?thesis
      using i by (simp add: outer_offs_def inner_offs_def outer_lens_def inner_lens_def)
  qed
  show "outer_offs ds tshs has v ! i + outer_lens ds sh tshs has v ! i \<le> sh ! i"
  proof (cases "spatial (ds ! i)")
    case True
    then show ?thesis
      using i wb[OF True] by (simp add: outer_offs_def outer_lens_def)
  next
    case False
    then show ?thesis using i by (simp add: outer_offs_def outer_lens_def)
  qed
  show "0 < outer_lens ds sh tshs has v ! i" if "spatial (ds ! i)"
    using i that wb[OF that] by (simp add: outer_lens_def)
  show "int (outer_lens ds sh tshs has v ! i)
             \<le> tshs ! spatial_index ds i + 2 * has ! spatial_index ds i" if "spatial (ds ! i)"
    using i that wb[OF that] by (simp add: outer_lens_def)
  show "outer_lens ds sh tshs has v ! i = sh ! i" if "\<not> spatial (ds ! i)"
    using i that by (simp add: outer_lens_def)
qed

lemma stitch_index:
  assumes lq: "length q = n" and l: "length oo = n" "length ol = n" "length io = n" "length il = n"
    and b: "\<And>i. i < n \<Longrightarrow> oo ! i \<le> io ! i \<and> io ! i + il ! i \<le> oo ! i + ol ! i"
    and r: "in_region io il q"
  shows "map2 (-) q io \<in> set (indices il)"
    and "map2 (+) (map2 (-) io oo) (map2 (-) q io) \<in> set (indices ol)"
    and "map2 (+) oo (map2 (+) (map2 (-) io oo) (map2 (-) q io)) = q"
proof -
  have r': "\<And>i. i < n \<Longrightarrow> io ! i \<le> q ! i \<and> q ! i < io ! i + il ! i"
    using r lq l by (simp add: in_region_iff)
  show "map2 (-) q io \<in> set (indices il)"
    unfolding indices_iff
  proof (intro conjI allI impI)
    show "length (map2 (-) q io) = length il" using lq l by simp
    fix j assume "j < length il"
    then have j: "j < n" using l by simp
    have "q ! j - io ! j < il ! j" using r'[OF j] by linarith
    then show "map2 (-) q io ! j < il ! j" using j lq l by simp
  qed
  show "map2 (+) (map2 (-) io oo) (map2 (-) q io) \<in> set (indices ol)"
    unfolding indices_iff
  proof (intro conjI allI impI)
    show "length (map2 (+) (map2 (-) io oo) (map2 (-) q io)) = length ol" using lq l by simp
    fix j assume "j < length ol"
    then have j: "j < n" using l by simp
    have "io ! j - oo ! j + (q ! j - io ! j) < ol ! j" using b[OF j] r'[OF j] by linarith
    then show "map2 (+) (map2 (-) io oo) (map2 (-) q io) ! j < ol ! j" using j lq l by simp
  qed
  show "map2 (+) oo (map2 (+) (map2 (-) io oo) (map2 (-) q io)) = q"
  proof (rule nth_equalityI)
    show "length (map2 (+) oo (map2 (+) (map2 (-) io oo) (map2 (-) q io))) = length q"
      using lq l by simp
    fix j assume "j < length (map2 (+) oo (map2 (+) (map2 (-) io oo) (map2 (-) q io)))"
    then have j: "j < n" using lq l by simp
    have "oo ! j + (io ! j - oo ! j + (q ! j - io ! j)) = q ! j" using b[OF j] r'[OF j] by linarith
    then show "map2 (+) oo (map2 (+) (map2 (-) io oo) (map2 (-) q io)) ! j = q ! j"
      using j lq l by simp
  qed
qed

lemma tile_step_identity:
  assumes len: "length sh = length ds" and d: "distinct ds"
    and bc: "CHR ''b'' \<in> set ds" "CHR ''c'' \<in> set ds"
    and guard: "length (filter spatial ds) = (if CHR ''z'' \<in> set ds then 3 else 2)"
    and first: "sh ! 0 = 1" "\<not> spatial (ds ! 0)"
    and l2: "length tshs = length (filter spatial ds)"
    and l3: "length has = length (filter spatial ds)"
    and pos: "\<forall>t\<in>set tshs. 0 < t" and hal: "\<forall>h\<in>set has. 0 \<le> h"
    and v: "v \<in> set (tile_indices ds sh tshs)"
    and t: "t = make_tile (filter spatial ds) (spatial_shape (map int sh) ds) tshs has v"
    and inp: "dims input' = ds" "shape (array input') = sh" "well_formed (array input')"
    and pp: "input_specs pp = [spec]" "in_axes spec = ds" "forward pp = (\<lambda>xs. xs)"
    and p: "p = \<lparr>mode = Some ''fixed'',
          targets = rev (zip (filter spatial ds) (map2 (\<lambda>t h. t + 2 * h) tshs has))\<rparr>"
    and out: "dims out = ds" "shape (array out) = sh"
  shows "tile_step pp input' p out t =
     Inr (out\<lparr>array := tabulate sh (dtype (array out))
       (\<lambda>q. if in_region (inner_offs ds tshs v) (inner_lens ds sh tshs v) q
             then item (array input') q else item (array out) q)\<rparr>)"
proof -
  let ?OO = "outer_offs ds tshs has v" and ?OL = "outer_lens ds sh tshs has v"
  let ?IO = "inner_offs ds tshs v" and ?IL = "inner_lens ds sh tshs v"
  let ?a = "array input'"
  let ?A1 = "tabulate ?OL (dtype ?a) (\<lambda>idx. item ?a (map2 (+) ?OO idx))"
  let ?inp = "input'\<lparr>array := ?A1\<rparr>"
  let ?pr = "map (\<lambda>i. if spatial (ds ! i) then Some (outer_start ds tshs has v i = 0) else None)
            [0..<length ds]"
  note rb = region_bounds[OF len l2 l3 pos hal v]
  have ne: "ds \<noteq> []" using bc by auto
  have l4: "length v = length (filter spatial ds)"
    using tile_indices_D(1)[OF len l2 v] .
  have l1: "length (spatial_shape (map int sh) ds) = length (filter spatial ds)"
    using len by (intro length_spatial_shape) simp
  have load: "load_tile input' (outer_of t) = Inr (?inp, ?pr)"
    by (rule load_tile_eq[OF len d bc l2 l3 pos hal v t inp(1,2)])
  \<comment> \<open>the padded prediction gives the tile back\<close>
  have side: "\<forall>l. PerAxis ?pr = PerAxis l \<longrightarrow> length l = length ds" by simp
  have m: "''fixed'' = (case mode p of None \<Rightarrow> ''dynamic'' | Some v \<Rightarrow> v)" unfolding p by simp
  have g: "dict_len (targets p) = (if CHR ''z'' \<in> set ds then 3 else 2)"
    using tile_padding_targets(1)[OF d l2 l3 p] guard by simp
  have axis: "\<exists>w c. pad_axis ''fixed'' (targets p) (ds ! i, shape ?A1 ! i, ?pr ! i) = Inr (w, c)
                \<and> 0 \<le> fst w \<and> 0 \<le> snd w \<and> (shape ?A1 ! i = 0 \<longrightarrow> w = (0, 0))"
    if i: "i < length ds" for i
  proof (cases "spatial (ds ! i)")
    case False
    then show ?thesis by (simp add: pad_axis_nonspatial)
  next
    case True
    have tg: "map_of (targets p) (ds ! i) = Some (tshs ! spatial_index ds i + 2 * has ! spatial_index ds i)"
      using tile_padding_targets(3)[OF d l2 l3 p i True] .
    show ?thesis
      using rb(4,5)[OF i True] pad_axis_fixed[OF True tg, of "?OL ! i" "?pr ! i"] by auto
  qed
  have nd1: "length (shape ?A1) = length ds" by simp
  have md2: "''fixed'' = ''dynamic'' \<or> ''fixed'' = ''fixed''" by simp
  have prs: "?pr = (case PerAxis ?pr of Broadcast b \<Rightarrow> replicate (length ds) (Some b)
                    | PerAxis l \<Rightarrow> l)" by simp
  have lprs: "length ?pr = length ds" by simp
  have ax: "\<forall>i<length ds. \<exists>w c.
      pad_axis ''fixed'' (targets p) (ds ! i, shape ?A1 ! i, ?pr ! i) = Inr (w, c)
        \<and> 0 \<le> fst w \<and> 0 \<le> snd w \<and> (shape ?A1 ! i = 0 \<longrightarrow> w = (0, 0))"
    using axis by blast
  have "\<exists>im' crop. pad ?A1 ds p (PerAxis ?pr) = Inr (im', crop)"
    by (rule pad_total[OF nd1 m md2 g prs lprs ne ax])
  then obtain im' crop where run: "pad (array ?inp) ds p (PerAxis ?pr) = Inr (im', crop)"
    by auto
  have "?OL ! 0 = 1" using rb(6)[of 0] first ne by simp
  then have shape1: "shape (array ?inp) = 1 # tl ?OL"
    using ne by (cases ?OL) (auto simp: outer_lens_def upt_conv_Cons)
  have pk: "\<forall>k\<in>set (map fst (targets p)). k \<in> set ds"
    using tile_padding_targets(2)[OF d l2 l3 p] .
  have pmode: "mode p = Some ''fixed''" unfolding p by simp
  have dinp: "dims ?inp = ds" using inp(1) by simp
  have wfinp: "well_formed (array ?inp)" by simp
  have pred: "predict_with_padding pp (Single ?inp) (Dict p) (PerAxis ?pr) = Inr [?inp]"
    by (rule predict_with_padding_identity[OF pp dinp wfinp shape1 d pmode pk side run])
  \<comment> \<open>the local window of the result\<close>
  have doml: "dom (local_of t) \<subseteq> set (dims ?inp)"
    unfolding tile_dom(3)[OF t l1 l2 l3 l4] dinp using bc by auto
  have domi: "dom (inner_of t) \<subseteq> set (dims out)"
    unfolding tile_dom(2)[OF t l1 l2 l3 l4] out(1) using bc by auto
  let ?V = "tabulate ?IL (dtype ?a) (\<lambda>idx. item ?A1 (map2 (+) (map2 (-) ?IO ?OO) idx))"
  have li: "length (dims ?inp) = length (shape (array ?inp))" using dinp by simp
  define loc where "loc = input'\<lparr>array := ?V\<rparr>"
  have getl: "xr_getitem ?inp (local_of t) = Inr loc"
    unfolding xr_getitem_eq[OF doml li] loc_def unfolding dinp
    by (simp add: tile_keys(5,6)[OF len d l2 l3 pos hal v t])
  have aloc: "array loc = ?V" unfolding loc_def by simp
  have lo: "length (dims out) = length (shape (array out))" using out len by simp
  have shp: "shape (array loc) = map2 slice_length (key_of_dict (inner_of t) (dims out)) (shape (array out))"
    unfolding out aloc tile_keys(4)[OF len d l2 l3 pos hal v t] by simp
  have set: "xr_setitem out (inner_of t) loc =
     Inr (out\<lparr>array := tabulate sh (dtype (array out))
       (\<lambda>q. if in_region ?IO ?IL q
          then item ?V (broadcast_index ?IL (map2 (-) q ?IO))
          else item (array out) q)\<rparr>)"
    unfolding xr_setitem_eq[OF domi lo shp]
    unfolding out aloc tile_keys(3,4)[OF len d l2 l3 pos hal v t] by (simp cong: if_cong)
  have elem: "item ?V (broadcast_index ?IL (map2 (-) q ?IO)) = item ?a q"
    if q: "q \<in> set (indices sh)" and r: "in_region ?IO ?IL q" for q
  proof -
    have lq: "length q = length ds" using q len by (simp add: indices_iff)
    have b: "\<And>i. i < length ds \<Longrightarrow> ?OO ! i \<le> ?IO ! i \<and> ?IO ! i + ?IL ! i \<le> ?OO ! i + ?OL ! i"
      using rb(1,2) by blast
    note si = stitch_index[OF lq _ _ _ _ b r, simplified]
    show ?thesis
      using si by (simp add: broadcast_index_same item_tabulate)
  qed
  have eq: "tabulate sh (dtype (array out))
       (\<lambda>q. if in_region ?IO ?IL q
          then item ?V (broadcast_index ?IL (map2 (-) q ?IO))
          else item (array out) q)
     = tabulate sh (dtype (array out))
       (\<lambda>q. if in_region ?IO ?IL q then item ?a q else item (array out) q)"
    by (rule tabulate_cong) (use elem in auto)
  have "tile_step pp input' p out (outer_of t, inner_of t, local_of t) =
     Inr (out\<lparr>array := tabulate sh (dtype (array out))
       (\<lambda>q. if in_region ?IO ?IL q then item ?a q else item (array out) q)\<rparr>)"
    by (simp add: tile_step_def load pred getl set eq)
  then show ?thesis
    by (simp add: outer_of_def inner_of_def local_of_def)
qed

subsection \<open>The whole loop with the identity\<close>

lemma spatial_shape_less:
  assumes "length q = length ds" "length sh = length ds" "\<And>i. i < length ds \<Longrightarrow> q ! i < sh ! i"
  shows "list_all2 (\<lambda>a b. 0 \<le> a \<and> a < b)
           (spatial_shape (map int q) ds) (spatial_shape (map int sh) ds)"
  using assms(1) assms(2)[symmetric] assms(3)
proof (induction q ds sh rule: list_induct3)
  case Nil
  then show ?case by (simp add: spatial_shape_def)
next
  case (Cons x xs d ds y ys)
  have "list_all2 (\<lambda>a b. 0 \<le> a \<and> a < b)
           (spatial_shape (map int xs) ds) (spatial_shape (map int ys) ds)"
  proof (rule Cons.IH)
    fix i assume "i < length ds"
    then show "xs ! i < ys ! i" using Cons.prems[of "Suc i"] by simp
  qed
  moreover have "x < y" using Cons.prems[of 0] by simp
  ultimately show ?case by (simp add: spatial_shape_def)
qed

lemma tile_covering:
  assumes len: "length sh = length ds"
    and l2: "length tshs = length (filter spatial ds)"
    and pos: "\<forall>t\<in>set tshs. 0 < t"
    and q: "q \<in> set (indices sh)"
  shows "\<exists>v\<in>set (tile_indices ds sh tshs).
           in_region (inner_offs ds tshs v) (inner_lens ds sh tshs v) q"
proof -
  let ?axs = "filter spatial ds"
  let ?ext = "spatial_shape (map int sh) ds"
  let ?sq = "spatial_shape (map int q) ds"
  have lq: "length q = length ds" and qb: "\<And>i. i < length ds \<Longrightarrow> q ! i < sh ! i"
    using q len by (auto simp: indices_iff)
  have l1: "length ?ext = length ?axs" using len by (intro length_spatial_shape) simp
  have lsq: "length ?sq = length ?axs" using lq by (intro length_spatial_shape) simp
  have rel: "list_all2 (\<lambda>a b. 0 \<le> a \<and> a < b) ?sq ?ext"
    using spatial_shape_less[OF lq len qb] .
  define v where "v = map2 (\<lambda>p tsh. p div tsh) ?sq tshs"
  have lv: "length v = length ?axs" unfolding v_def using lsq l2 by simp
  have vj: "v ! j = ?sq ! j div tshs ! j" if "j < length ?axs" for j
    unfolding v_def using that lsq l2 by simp
  have mem: "v \<in> set (tile_indices ds sh tshs)"
    unfolding tile_indices_def in_product_lists_iff
  proof (intro conjI allI impI)
    show "length v = length (map (\<lambda>(n, tsh). py_range \<lceil>real_of_int n / real_of_int tsh\<rceil>) (zip ?ext tshs))"
      using lv l1 l2 by simp
    fix j assume "j < length (map (\<lambda>(n, tsh). py_range \<lceil>real_of_int n / real_of_int tsh\<rceil>) (zip ?ext tshs))"
    then have j: "j < length ?axs" using l1 l2 by simp
    have t: "0 < tshs ! j" using pos j l2 by simp
    have "0 \<le> ?sq ! j" "?sq ! j < ?ext ! j"
      using rel j lsq by (auto simp: list_all2_conv_all_nth)
    from tile_index_range[OF t this]
    show "v ! j \<in> set (map (\<lambda>(n, tsh). py_range \<lceil>real_of_int n / real_of_int tsh\<rceil>) (zip ?ext tshs) ! j)"
      using j l1 l2 by (simp add: vj set_py_range)
  qed
  have "in_region (inner_offs ds tshs v) (inner_lens ds sh tshs v) q"
    unfolding in_region_iff[of q "inner_offs ds tshs v" "inner_lens ds sh tshs v", simplified, OF lq]
  proof (intro allI impI)
    fix i assume i: "i < length ds"
    show "inner_offs ds tshs v ! i \<le> q ! i \<and> q ! i < inner_offs ds tshs v ! i + inner_lens ds sh tshs v ! i"
    proof (cases "spatial (ds ! i)")
      case False
      then show ?thesis using i qb[OF i] by (simp add: inner_offs_def inner_lens_def)
    next
      case True
      let ?j = "spatial_index ds i"
      have j: "?j < length ?axs" using spatial_index(1)[OF i True] .
      have t: "0 < tshs ! ?j" using pos j l2 by simp
      have sq: "?sq ! ?j = int (q ! i)"
        using spatial_shape_index[of "map int q" ds i] lq i True by simp
      have "int (q ! i) < int (sh ! i)" using qb[OF i] by simp
      from tile_index_unique[OF t this, of "v ! ?j"]
      have "v ! ?j * tshs ! ?j \<le> int (q ! i) \<and>
            int (q ! i) < min (v ! ?j * tshs ! ?j + tshs ! ?j) (int (sh ! i))"
        using vj[OF j] sq by simp
      then have "tile_pos ds tshs v i \<le> int (q ! i) \<and> int (q ! i) < inner_stop ds sh tshs v i"
        by (simp add: tile_pos_def inner_stop_def)
      then show ?thesis
        using i True by (simp add: inner_offs_def inner_lens_def) linarith
    qed
  qed
  with mem show ?thesis by blast
qed

lemma tile_loop_identity:
  assumes len: "length sh = length ds" and d: "distinct ds"
    and bc: "CHR ''b'' \<in> set ds" "CHR ''c'' \<in> set ds"
    and guard: "length (filter spatial ds) = (if CHR ''z'' \<in> set ds then 3 else 2)"
    and first: "sh ! 0 = 1" "\<not> spatial (ds ! 0)"
    and l2: "length tshs = length (filter spatial ds)"
    and l3: "length has = length (filter spatial ds)"
    and pos: "\<forall>t\<in>set tshs. 0 < t" and hal: "\<forall>h\<in>set has. 0 \<le> h"
    and inp: "dims input' = ds" "shape (array input') = sh" "well_formed (array input')"
    and pp: "input_specs pp = [spec]" "in_axes spec = ds" "forward pp = (\<lambda>xs. xs)"
    and p: "p = \<lparr>mode = Some ''fixed'',
          targets = rev (zip (filter spatial ds) (map2 (\<lambda>t h. t + 2 * h) tshs has))\<rparr>"
    and vs: "set vs \<subseteq> set (tile_indices ds sh tshs)"
    and out: "dims out = ds" "shape (array out) = sh" "well_formed (array out)"
  shows "\<exists>out'. tile_loop pp input' p out
             (map (make_tile (filter spatial ds) (spatial_shape (map int sh) ds) tshs has) vs) = Inr out' \<and>
           dims out' = ds \<and> shape (array out') = sh \<and> dtype (array out') = dtype (array out) \<and>
           well_formed (array out') \<and>
           (\<forall>q\<in>set (indices sh). item (array out') q =
              (if \<exists>v\<in>set vs. in_region (inner_offs ds tshs v) (inner_lens ds sh tshs v) q
               then item (array input') q else item (array out) q))"
  using vs out
proof (induction vs arbitrary: out)
  case Nil
  then show ?case by simp
next
  case (Cons v vs)
  let ?mk = "make_tile (filter spatial ds) (spatial_shape (map int sh) ds) tshs has"
  let ?out1 = "out\<lparr>array := tabulate sh (dtype (array out))
       (\<lambda>q. if in_region (inner_offs ds tshs v) (inner_lens ds sh tshs v) q
             then item (array input') q else item (array out) q)\<rparr>"
  have v: "v \<in> set (tile_indices ds sh tshs)" using Cons.prems(1) by simp
  have step: "tile_step pp input' p out (?mk v) = Inr ?out1"
    by (rule tile_step_identity[OF len d bc guard first l2 l3 pos hal v refl inp pp p Cons.prems(2,3)])
  have "set vs \<subseteq> set (tile_indices ds sh tshs)" using Cons.prems(1) by simp
  moreover have "dims ?out1 = ds" "shape (array ?out1) = sh" "well_formed (array ?out1)"
    using Cons.prems(2) by simp_all
  ultimately obtain out' where
    run: "tile_loop pp input' p ?out1 (map ?mk vs) = Inr out'"
    and props: "dims out' = ds" "shape (array out') = sh" "dtype (array out') = dtype (array ?out1)"
      "well_formed (array out')"
    and items: "\<forall>q\<in>set (indices sh). item (array out') q =
              (if \<exists>v\<in>set vs. in_region (inner_offs ds tshs v) (inner_lens ds sh tshs v) q
               then item (array input') q else item (array ?out1) q)"
    using Cons.IH[of ?out1] by blast
  have "tile_loop pp input' p out (map ?mk (v # vs)) = Inr out'"
    using step run by simp
  moreover have "\<forall>q\<in>set (indices sh). item (array out') q =
              (if \<exists>w\<in>set (v # vs). in_region (inner_offs ds tshs w) (inner_lens ds sh tshs w) q
               then item (array input') q else item (array out) q)"
    using items by (auto simp: item_tabulate)
  ultimately show ?case using props by auto
qed

text \<open>
  Claim C1, as amended. Let the predictor be the identity and the pipeline have the one
  input description with the axes of the input. Let the input have distinct axis labels,
  among them \<open>b\<close> and \<open>c\<close>, a first axis that is not spatial and of extent 1, and as
  spatial axes exactly two when \<open>z\<close> is not among the labels (so \<open>x\<close> and \<open>y\<close>), and exactly
  three when it is (so \<open>x\<close>, \<open>y\<close> and \<open>z\<close>); let the tile extents be positive and the
  halos not negative, and the output buffer have the axes, shape and element type of
  the input. Then the tiled prediction fills the output buffer so that it equals the
  input, whether or not the tile extents divide the extents of the input.
\<close>

theorem predict_with_tiling_identity:
  assumes wf: "well_formed (array input')"
    and len: "length (shape (array input')) = length (dims input')"
    and d: "distinct (dims input')"
    and bc: "CHR ''b'' \<in> set (dims input')" "CHR ''c'' \<in> set (dims input')"
    and guard: "length (filter spatial (dims input')) =
                  (if CHR ''z'' \<in> set (dims input') then 3 else 2)"
    and first: "shape (array input') ! 0 = 1" "\<not> spatial (dims input' ! 0)"
    and ts: "map tile_shape (filter spatial (dims input')) = map Some tshs"
    and hs: "map hal (filter spatial (dims input')) = map Some has"
    and pos: "\<forall>t\<in>set tshs. 0 < t" and hal: "\<forall>h\<in>set has. 0 \<le> h"
    and pp: "input_specs pp = [spec]" "in_axes spec = dims input'" "forward pp = (\<lambda>xs. xs)"
    and out: "dims output = dims input'" "shape (array output) = shape (array input')"
      "dtype (array output) = dtype (array input')" "well_formed (array output)"
  shows "predict_with_tiling_impl pp [input'] [output] [tile_shape] [hal] = Inr [input']"
proof -
  define ds where "ds = dims input'"
  define sh where "sh = shape (array input')"
  define p where "p = \<lparr>mode = Some ''fixed'',
          targets = rev (zip (filter spatial ds) (map2 (\<lambda>t h. t + 2 * h) tshs has))\<rparr>"
  let ?mk = "make_tile (filter spatial ds) (spatial_shape (map int sh) ds) tshs has"
  have l2: "length tshs = length (filter spatial ds)" using ts unfolding ds_def by (metis length_map)
  have l3: "length has = length (filter spatial ds)" using hs unfolding ds_def by (metis length_map)
  have len': "length sh = length ds" using len unfolding ds_def sh_def .
  have pad: "tile_padding tile_shape hal ds = Inr p"
    unfolding p_def ds_def by (rule tile_padding_eq[OF ts hs])
  have tiles: "get_tiling (map int sh) tile_shape hal ds = Inr (map ?mk (tile_indices ds sh tshs))"
    unfolding tile_indices_def ds_def
    by (rule get_tiling_eq[OF _ ts hs pos]) (use len in \<open>simp add: sh_def\<close>)
  from tile_loop_identity[OF len' d[folded ds_def] bc[folded ds_def] guard[folded ds_def]
      first[folded ds_def sh_def] l2 l3 pos hal ds_def[symmetric] sh_def[symmetric] wf
      pp[folded ds_def] p_def subset_refl out(1)[folded ds_def] out(2)[folded sh_def] out(4)]
  obtain out' where
    run: "tile_loop pp input' p output (map ?mk (tile_indices ds sh tshs)) = Inr out'"
    and props: "dims out' = ds" "shape (array out') = sh" "dtype (array out') = dtype (array output)"
      "well_formed (array out')"
    and items: "\<forall>q\<in>set (indices sh). item (array out') q =
              (if \<exists>v\<in>set (tile_indices ds sh tshs).
                    in_region (inner_offs ds tshs v) (inner_lens ds sh tshs v) q
               then item (array input') q else item (array output) q)"
    by blast
  have "item (array out') q = item (array input') q" if "q \<in> set (indices sh)" for q
    using items that tile_covering[OF len' l2 pos that] by simp
  then have "tabulate sh (dtype (array input')) (item (array out'))
      = tabulate sh (dtype (array input')) (item (array input'))"
    by (intro tabulate_cong) simp
  moreover have "tabulate sh (dtype (array input')) (item (array out')) = array out'"
    using tabulate_item[OF props(4)] props(2,3) out(3) by simp
  moreover have "tabulate sh (dtype (array input')) (item (array input')) = array input'"
    using tabulate_item[OF wf] by (simp add: sh_def)
  ultimately have "array out' = array input'" by simp
  then have "out' = input'" using props(1) by (simp add: ds_def)
  then show ?thesis
    using pad tiles run
    by (simp add: predict_with_tiling_impl_def ds_def[symmetric] sh_def[symmetric])
qed

text \<open>
  A \<open>3 \<times> 5\<close> image with one batch entry and one channel, tiles of \<open>2 \<times> 2\<close> (which do not
  divide the extents) and halos 1 and 0.
\<close>

theorem predict_with_tiling_identity_example:
  "predict_with_tiling_impl
     \<lparr>input_specs = [\<lparr>in_name = ''raw'', in_axes = ''bcyx'', in_shape = InputShape [1, 1, 3, 5]\<rparr>],
      output_specs = [], forward = (\<lambda>xs. xs)\<rparr>
     [\<lparr>dims = ''bcyx'',
       array = \<lparr>shape = [1, 1, 3, 5], data = [1, 2, 3, 4, 5, 6, 7, 8, 9, 10, 11, 12, 13, 14, 15 :: int],
                dtype = ''int64''\<rparr>\<rparr>]
     [\<lparr>dims = ''bcyx'',
       array = \<lparr>shape = [1, 1, 3, 5], data = [0, 0, 0, 0, 0, 0, 0, 0, 0, 0, 0, 0, 0, 0, 0],
                dtype = ''int64''\<rparr>\<rparr>]
     [[CHR ''y'' \<mapsto> 2, CHR ''x'' \<mapsto> 2]] [[CHR ''y'' \<mapsto> 1, CHR ''x'' \<mapsto> 0]]
   = Inr [\<lparr>dims = ''bcyx'',
       array = \<lparr>shape = [1, 1, 3, 5], data = [1, 2, 3, 4, 5, 6, 7, 8, 9, 10, 11, 12, 13, 14, 15 :: int],
                dtype = ''int64''\<rparr>\<rparr>]"
  by (rule predict_with_tiling_identity[where tshs = "[2, 2]" and has = "[1, 0]"
        and spec = "\<lparr>in_name = ''raw'', in_axes = ''bcyx'', in_shape = InputShape [1, 1, 3, 5]\<rparr>"])
     (simp_all add: well_formed_def spatial_def)

text \<open>
  An input with the one spatial axis \<open>x\<close>: the padding of the tiles has one target, the
  assertion of \<open>pad\<close> on the number of targets fails at the first tile, and the output
  buffer is not filled.
\<close>

theorem predict_with_tiling_identity_counterexample:
  "predict_with_tiling_impl
     \<lparr>input_specs = [\<lparr>in_name = ''raw'', in_axes = ''bcx'', in_shape = InputShape [1, 1, 3]\<rparr>],
      output_specs = [], forward = (\<lambda>xs. xs)\<rparr>
     [\<lparr>dims = ''bcx'', array = \<lparr>shape = [1, 1, 3], data = [1, 2, 3 :: int], dtype = ''int64''\<rparr>\<rparr>]
     [\<lparr>dims = ''bcx'', array = \<lparr>shape = [1, 1, 3], data = [0, 0, 0], dtype = ''int64''\<rparr>\<rparr>]
     [[CHR ''x'' \<mapsto> 2]] [[CHR ''x'' \<mapsto> 1]]
   = Inl AssertionError"
  by code_simp

subsection \<open>The arguments of the padded prediction of a tile\<close>

lemma load_tile_Inr_D:
  assumes "load_tile input' w = Inr (inp, pr)"
  shows "xr_getitem input' w = Inr inp"
    and "list_all2 (\<lambda>ax y. (if spatial ax
                   then bind (getitem w ax) (\<lambda>s. Inr (Some (start s = Some 0)))
                   else Inr None) = Inr y) (dims input') pr"
proof -
  let ?g = "\<lambda>ax. if spatial ax
                   then bind (getitem w ax) (\<lambda>s. Inr (Some (start s = Some 0)))
                   else Inr None"
  obtain x where x: "xr_getitem input' w = Inr x"
    using assms by (cases "xr_getitem input' w") (auto simp: load_tile_def)
  obtain y where y: "mapM ?g (dims input') = Inr y"
    using assms x by (cases "mapM ?g (dims input')") (auto simp: load_tile_def)
  have "x = inp" "y = pr" using assms x y by (auto simp: load_tile_def)
  then show "xr_getitem input' w = Inr inp"
    and "list_all2 (\<lambda>ax y. ?g ax = Inr y) (dims input') pr"
    using x y by (simp_all add: mapM_Inr_iff)
qed

text \<open>
  Claim C7. Whenever a tile is loaded, the padded prediction of the tile gets the padding
  dictionary with mode \<^verbatim>\<open>"fixed"\<close> and, for every spatial axis, the target tile extent plus
  twice the halo; and it gets a side selection with one entry per axis that is true on
  a spatial axis exactly when the outer window of the tile starts at 0 there, and
  \<^verbatim>\<open>None\<close> on the other axes. In the loop of \<open>pad\<close> the width, the target minus the extent,
  then goes after the data when the window starts at 0 and before the data otherwise.
\<close>

theorem tile_step_arguments:
  assumes d: "distinct (dims input')"
    and ts: "map tile_shape (filter spatial (dims input')) = map Some tshs"
    and hs: "map hal (filter spatial (dims input')) = map Some has"
    and load: "load_tile input' (outer_of t) = Inr (inp, pr)"
  shows "\<exists>p. tile_padding tile_shape hal (dims input') = Inr p \<and> mode p = Some ''fixed'' \<and>
     tile_step pp input' p output t =
       bind (predict_with_padding pp (Single inp) (Dict p) (PerAxis pr))
         (\<lambda>out. if length out \<noteq> 1 then Inl AssertionError
                else bind (xr_getitem (hd out) (local_of t)) (xr_setitem output (inner_of t))) \<and>
     length pr = length (dims input') \<and>
     (\<forall>i<length (dims input').
        (spatial (dims input' ! i) \<longrightarrow>
           map_of (targets p) (dims input' ! i) =
             Some (tshs ! spatial_index (dims input') i + 2 * has ! spatial_index (dims input') i) \<and>
           (\<exists>s. outer_of t (dims input' ! i) = Some s \<and> pr ! i = Some (start s = Some 0) \<and>
              (\<forall>n. int n \<le> tshs ! spatial_index (dims input') i + 2 * has ! spatial_index (dims input') i \<longrightarrow>
                 (\<exists>c. pad_axis ''fixed'' (targets p) (dims input' ! i, n, pr ! i) =
                    Inr (if start s = Some 0
                         then (0, tshs ! spatial_index (dims input') i
                                    + 2 * has ! spatial_index (dims input') i - int n)
                         else (tshs ! spatial_index (dims input') i
                                    + 2 * has ! spatial_index (dims input') i - int n, 0), c))))) \<and>
        (\<not> spatial (dims input' ! i) \<longrightarrow> pr ! i = None))"
proof -
  define ds where "ds = dims input'"
  define p where "p = \<lparr>mode = Some ''fixed'',
          targets = rev (zip (filter spatial ds) (map2 (\<lambda>t h. t + 2 * h) tshs has))\<rparr>"
  have l2: "length tshs = length (filter spatial ds)" using ts unfolding ds_def by (metis length_map)
  have l3: "length has = length (filter spatial ds)" using hs unfolding ds_def by (metis length_map)
  have dd: "distinct ds" using d unfolding ds_def .
  have pad: "tile_padding tile_shape hal ds = Inr p"
    unfolding p_def ds_def by (rule tile_padding_eq[OF ts hs])
  have md: "mode p = Some ''fixed''" unfolding p_def by simp
  note tg = tile_padding_targets(3)[OF dd l2 l3 p_def]
  have tt: "t = (outer_of t, inner_of t, local_of t)"
    by (simp add: outer_of_def inner_of_def local_of_def)
  have step: "tile_step pp input' p output t =
       bind (predict_with_padding pp (Single inp) (Dict p) (PerAxis pr))
         (\<lambda>out. if length out \<noteq> 1 then Inl AssertionError
                else bind (xr_getitem (hd out) (local_of t)) (xr_setitem output (inner_of t)))"
    by (subst tt) (simp add: tile_step_def load)
  note all2 = load_tile_Inr_D(2)[OF load, folded ds_def]
  have lpr: "length pr = length ds" using all2 by (auto dest: list_all2_lengthD)
  have side: "(spatial (ds ! i) \<longrightarrow>
           map_of (targets p) (ds ! i) = Some (tshs ! spatial_index ds i + 2 * has ! spatial_index ds i) \<and>
           (\<exists>s. outer_of t (ds ! i) = Some s \<and> pr ! i = Some (start s = Some 0) \<and>
              (\<forall>n. int n \<le> tshs ! spatial_index ds i + 2 * has ! spatial_index ds i \<longrightarrow>
                 (\<exists>c. pad_axis ''fixed'' (targets p) (ds ! i, n, pr ! i) =
                    Inr (if start s = Some 0
                         then (0, tshs ! spatial_index ds i + 2 * has ! spatial_index ds i - int n)
                         else (tshs ! spatial_index ds i + 2 * has ! spatial_index ds i - int n, 0), c))))) \<and>
        (\<not> spatial (ds ! i) \<longrightarrow> pr ! i = None)"
    if i: "i < length ds" for i
  proof (cases "spatial (ds ! i)")
    case False
    then show ?thesis using all2 i by (auto simp: list_all2_conv_all_nth)
  next
    case True
    have "bind (getitem (outer_of t) (ds ! i)) (\<lambda>s. Inr (Some (start s = Some 0))) = Inr (pr ! i)"
      using all2 i True by (auto simp: list_all2_conv_all_nth)
    then obtain s where s: "outer_of t (ds ! i) = Some s" "pr ! i = Some (start s = Some 0)"
      by (cases "outer_of t (ds ! i)") (auto simp: getitem_def)
    have "\<exists>c. pad_axis ''fixed'' (targets p) (ds ! i, n, pr ! i) =
                    Inr (if start s = Some 0
                         then (0, tshs ! spatial_index ds i + 2 * has ! spatial_index ds i - int n)
                         else (tshs ! spatial_index ds i + 2 * has ! spatial_index ds i - int n, 0), c)"
      if "int n \<le> tshs ! spatial_index ds i + 2 * has ! spatial_index ds i" for n
      using that pad_axis_fixed[OF True tg[OF i True], of n "pr ! i"] s(2) by auto
    then show ?thesis using True tg[OF i True] s by blast
  qed
  show ?thesis
    unfolding ds_def[symmetric]
    by (rule exI[of _ p]) (use pad md step lpr side in blast)
qed

text \<open>
  The tile at row 0 and column 1 of a \<open>3 \<times> 5\<close> image, for tiles of \<open>2 \<times> 2\<close> and halos 1 and 0:
  its outer window starts at 0 on \<open>y\<close> and at 2 on \<open>x\<close>, so the side selection is true on \<open>y\<close>
  and false on \<open>x\<close>; the targets are \<open>2 + 2 * 1\<close> and \<open>2 + 2 * 0\<close>.
\<close>

theorem tile_step_arguments_example:
  "\<exists>p. tile_padding [CHR ''y'' \<mapsto> 2, CHR ''x'' \<mapsto> 2] [CHR ''y'' \<mapsto> 1, CHR ''x'' \<mapsto> 0] ''bcyx'' = Inr p \<and>
     mode p = Some ''fixed'' \<and>
     map_of (targets p) (CHR ''y'') = Some 4 \<and> map_of (targets p) (CHR ''x'') = Some 2 \<and>
     load_tile
       \<lparr>dims = ''bcyx'',
        array = \<lparr>shape = [1, 1, 3, 5], data = [1, 2, 3, 4, 5, 6, 7, 8, 9, 10, 11, 12, 13, 14, 15 :: int],
                 dtype = ''int64''\<rparr>\<rparr>
       (outer_of (make_tile ''yx'' [3, 5] [2, 2] [1, 0] [0, 1]))
     = Inr (\<lparr>dims = ''bcyx'',
             array = \<lparr>shape = [1, 1, 3, 2], data = [3, 4, 8, 9, 13, 14], dtype = ''int64''\<rparr>\<rparr>,
            [None, None, Some True, Some False])"
proof -
  let ?A = "\<lparr>dims = ''bcyx'',
        array = \<lparr>shape = [1, 1, 3, 5], data = [1, 2, 3, 4, 5, 6, 7, 8, 9, 10, 11, 12, 13, 14, 15 :: int],
                 dtype = ''int64''\<rparr>\<rparr>"
  let ?t = "make_tile ''yx'' [3, 5] [2, 2] [1, 0] [0, 1]"
  have load: "load_tile ?A (outer_of ?t)
     = Inr (\<lparr>dims = ''bcyx'',
             array = \<lparr>shape = [1, 1, 3, 2], data = [3, 4, 8, 9, 13, 14], dtype = ''int64''\<rparr>\<rparr>,
            [None, None, Some True, Some False])"
    by code_simp
  have d: "distinct (dims ?A)" by simp
  have ts: "map [CHR ''y'' \<mapsto> 2, CHR ''x'' \<mapsto> 2::int] (filter spatial (dims ?A)) = map Some [2, 2]"
    by (simp add: spatial_def)
  have hs: "map [CHR ''y'' \<mapsto> 1, CHR ''x'' \<mapsto> 0::int] (filter spatial (dims ?A)) = map Some [1, 0]"
    by (simp add: spatial_def)
  from tile_step_arguments[OF d ts hs load]
  obtain p where p: "tile_padding [CHR ''y'' \<mapsto> 2, CHR ''x'' \<mapsto> 2] [CHR ''y'' \<mapsto> 1, CHR ''x'' \<mapsto> 0] (dims ?A) = Inr p"
    "mode p = Some ''fixed''"
    and tg: "\<And>i. i < length (dims ?A) \<Longrightarrow> spatial (dims ?A ! i) \<Longrightarrow>
       map_of (targets p) (dims ?A ! i) =
         Some ([2, 2] ! spatial_index (dims ?A) i + 2 * [1, 0] ! spatial_index (dims ?A) i)"
    by blast
  have "map_of (targets p) (CHR ''y'') = Some 4" "map_of (targets p) (CHR ''x'') = Some 2"
    using tg[of 2] tg[of 3] by (simp_all add: spatial_def spatial_index_def)
  with p load show ?thesis by simp
qed

subsection \<open>Tiles away from the edges\<close>

lemma xr_getitem_shape:
  assumes "xr_getitem da w = Inr r" and "length (dims da) = length (shape (array da))"
  shows "shape (array r) = map2 slice_length (key_of_dict w (dims da)) (shape (array da))"
proof -
  have "dom w \<subseteq> set (dims da)"
    using assms(1) by (auto simp: xr_getitem_def split: if_splits)
  from xr_getitem_eq[OF this assms(2)] assms(1) show ?thesis by auto
qed

text \<open>
  Claim C8. Take a tile of \<open>get_tiling\<close> and a spatial axis on which the outer window is
  clipped at neither end: the position minus the halo is not negative, and the position
  plus the tile extent plus the halo is not beyond the extent of the array. When the
  tile is loaded, the loaded array has the extent tile extent plus twice the halo on that
  axis, so the loop of \<open>pad\<close> computes the width 0 on both sides of the axis whichever
  side is selected, and the crop of the axis selects all of it.
\<close>

theorem interior_tile_no_padding:
  assumes len: "length (shape (array input')) = length (dims input')"
    and d: "distinct (dims input')"
    and ts: "map tile_shape (filter spatial (dims input')) = map Some tshs"
    and hs: "map hal (filter spatial (dims input')) = map Some has"
    and pos: "\<forall>t\<in>set tshs. 0 < t" and hal: "\<forall>h\<in>set has. 0 \<le> h"
    and tiles: "get_tiling (map int (shape (array input'))) tile_shape hal (dims input') = Inr tiles"
    and k: "k < length tiles"
    and v: "v = tile_indices (dims input') (shape (array input')) tshs ! k"
    and i: "i < length (dims input')" "spatial (dims input' ! i)"
    and lo: "0 \<le> tile_pos (dims input') tshs v i - has ! spatial_index (dims input') i"
    and hi: "tile_pos (dims input') tshs v i + tshs ! spatial_index (dims input') i
               + has ! spatial_index (dims input') i \<le> int (shape (array input') ! i)"
    and load: "load_tile input' (outer_of (tiles ! k)) = Inr (inp, pr)"
  shows "\<exists>p. tile_padding tile_shape hal (dims input') = Inr p \<and>
     int (shape (array inp) ! i) =
       tshs ! spatial_index (dims input') i + 2 * has ! spatial_index (dims input') i \<and>
     (\<forall>s. \<exists>c. pad_axis ''fixed'' (targets p) (dims input' ! i, shape (array inp) ! i, s)
                  = Inr ((0, 0), c) \<and>
               slice_offset c (shape (array inp) ! i) = 0 \<and>
               slice_length c (shape (array inp) ! i) = shape (array inp) ! i)"
proof -
  define ds where "ds = dims input'"
  define sh where "sh = shape (array input')"
  define p where "p = \<lparr>mode = Some ''fixed'',
          targets = rev (zip (filter spatial ds) (map2 (\<lambda>t h. t + 2 * h) tshs has))\<rparr>"
  let ?mk = "make_tile (filter spatial ds) (spatial_shape (map int sh) ds) tshs has"
  let ?j = "spatial_index ds i"
  have l2: "length tshs = length (filter spatial ds)" using ts unfolding ds_def by (metis length_map)
  have l3: "length has = length (filter spatial ds)" using hs unfolding ds_def by (metis length_map)
  have len': "length sh = length ds" using len unfolding ds_def sh_def .
  have dd: "distinct ds" using d unfolding ds_def .
  have ii: "i < length ds" "spatial (ds ! i)" using i unfolding ds_def .
  have pad: "tile_padding tile_shape hal ds = Inr p"
    unfolding p_def ds_def by (rule tile_padding_eq[OF ts hs])
  have "get_tiling (map int sh) tile_shape hal ds = Inr (map ?mk (tile_indices ds sh tshs))"
    unfolding tile_indices_def ds_def
    by (rule get_tiling_eq[OF _ ts hs pos]) (use len in \<open>simp add: sh_def\<close>)
  then have tl: "tiles = map ?mk (tile_indices ds sh tshs)"
    using tiles unfolding ds_def sh_def by simp
  have kk: "k < length (tile_indices ds sh tshs)" using k tl by simp
  have vv: "v \<in> set (tile_indices ds sh tshs)" using kk v unfolding ds_def sh_def by simp
  have t: "tiles ! k = ?mk v" using kk tl v unfolding ds_def sh_def by simp
  have "shape (array inp) = map2 slice_length (key_of_dict (outer_of (tiles ! k)) ds) sh"
    using xr_getitem_shape[OF load_tile_Inr_D(1)[OF load]] len unfolding ds_def sh_def by simp
  then have "shape (array inp) = outer_lens ds sh tshs has v"
    unfolding tile_keys(2)[OF len' dd l2 l3 pos hal vv t] .
  then have "shape (array inp) ! i
      = nat (outer_stop ds sh tshs has v i - outer_start ds tshs has v i)"
    using ii by (simp add: outer_lens_def)
  moreover have "outer_start ds tshs has v i = tile_pos ds tshs v i - has ! ?j"
    using lo unfolding ds_def outer_start_def by simp
  moreover have "outer_stop ds sh tshs has v i = tile_pos ds tshs v i + tshs ! ?j + has ! ?j"
    using hi unfolding ds_def sh_def outer_stop_def by simp
  moreover have "0 < tshs ! ?j" "0 \<le> has ! ?j"
    using pos hal l2 l3 spatial_index(1)[OF ii] by simp_all
  ultimately have n: "int (shape (array inp) ! i) = tshs ! ?j + 2 * has ! ?j"
    by simp
  have tg: "map_of (targets p) (ds ! i) = Some (tshs ! ?j + 2 * has ! ?j)"
    using tile_padding_targets(3)[OF dd l2 l3 p_def ii] .
  have "\<exists>c. pad_axis ''fixed'' (targets p) (ds ! i, shape (array inp) ! i, s) = Inr ((0, 0), c) \<and>
               slice_offset c (shape (array inp) ! i) = 0 \<and>
               slice_length c (shape (array inp) ! i) = shape (array inp) ! i" for s
    using pad_axis_fixed[OF ii(2) tg, of "shape (array inp) ! i" s] n
    by (auto simp: slice_offset_def slice_length_def slice_start_def slice_stop_def)
  then show ?thesis
    unfolding ds_def[symmetric] using pad n by blast
qed

text \<open>
  A \<open>3 \<times> 7\<close> image with tiles of \<open>2 \<times> 2\<close> and halo 1: the second tile of the first row lies at
  position 2 on \<open>x\<close>, its outer window \<open>[1, 5)\<close> is not clipped there, the loaded array has
  the extent \<open>4 = 2 + 2 * 1\<close> on \<open>x\<close>, and nothing is added on either side.
\<close>

theorem interior_tile_no_padding_example:
  "\<exists>p inp pr.
     tile_padding [CHR ''y'' \<mapsto> 2, CHR ''x'' \<mapsto> 2] [CHR ''y'' \<mapsto> 1, CHR ''x'' \<mapsto> 1] ''bcyx'' = Inr p \<and>
     load_tile
       \<lparr>dims = ''bcyx'',
        array = \<lparr>shape = [1, 1, 3, 7],
                 data = [1, 2, 3, 4, 5, 6, 7, 8, 9, 10, 11, 12, 13, 14, 15, 16, 17, 18, 19, 20, 21 :: int],
                 dtype = ''int64''\<rparr>\<rparr>
       (outer_of (map (make_tile ''yx'' [3, 7] [2, 2] [1, 1])
                    (tile_indices ''bcyx'' [1, 1, 3, 7] [2, 2]) ! 1))
       = Inr (inp, pr) \<and>
     shape (array inp) ! 3 = 4 \<and>
     (\<exists>c. pad_axis ''fixed'' (targets p) (CHR ''x'', 4, Some True) = Inr ((0, 0), c)) \<and>
     (\<exists>c. pad_axis ''fixed'' (targets p) (CHR ''x'', 4, Some False) = Inr ((0, 0), c))"
proof -
  let ?A = "\<lparr>dims = ''bcyx'',
        array = \<lparr>shape = [1, 1, 3, 7],
                 data = [1, 2, 3, 4, 5, 6, 7, 8, 9, 10, 11, 12, 13, 14, 15, 16, 17, 18, 19, 20, 21 :: int],
                 dtype = ''int64''\<rparr>\<rparr>"
  let ?ti = "[CHR ''y'' \<mapsto> 2, CHR ''x'' \<mapsto> 2::int]"
  let ?ha = "[CHR ''y'' \<mapsto> 1, CHR ''x'' \<mapsto> 1::int]"
  let ?tiles = "map (make_tile ''yx'' [3, 7] [2, 2] [1, 1]) (tile_indices ''bcyx'' [1, 1, 3, 7] [2, 2])"
  let ?inp = "\<lparr>dims = ''bcyx'',
         array = \<lparr>shape = [1, 1, 3, 4], data = [2, 3, 4, 5, 9, 10, 11, 12, 16, 17, 18, 19 :: int],
                  dtype = ''int64''\<rparr>\<rparr>"
  have idx: "tile_indices ''bcyx'' [1, 1, 3, 7] [2, 2]
      = [[0, 0], [0, 1], [0, 2], [0, 3], [1, 0], [1, 1], [1, 2], [1, 3]]"
    by (simp add: tile_indices_def spatial_shape_def spatial_def py_range_def upto_rec1)
  have idx': "tile_indices ''bcyx'' [Suc 0, Suc 0, 3, 7] [2, 2]
      = [[0, 0], [0, 1], [0, 2], [0, 3], [1, 0], [1, 1], [1, 2], [1, 3]]"
    using idx by simp
  have len: "length (shape (array ?A)) = length (dims ?A)" by simp
  have d: "distinct (dims ?A)" by simp
  have ts: "map ?ti (filter spatial (dims ?A)) = map Some [2, 2]" by (simp add: spatial_def)
  have hs: "map ?ha (filter spatial (dims ?A)) = map Some [1, 1]" by (simp add: spatial_def)
  have pos: "\<forall>t\<in>set [2, 2::int]. 0 < t" and hal: "\<forall>h\<in>set [1, 1::int]. 0 \<le> h" by simp_all
  have tiles: "get_tiling (map int (shape (array ?A))) ?ti ?ha (dims ?A) = Inr ?tiles"
    using get_tiling_eq[OF _ ts hs pos, of "map int (shape (array ?A))"]
    by (simp add: tile_indices_def spatial_shape_def spatial_def)
  have k: "1 < length ?tiles" by (simp add: idx')
  have v: "[0, 1] = tile_indices (dims ?A) (shape (array ?A)) [2, 2] ! 1" by (simp add: idx')
  have i: "3 < length (dims ?A)" "spatial (dims ?A ! 3)" by (simp_all add: spatial_def)
  have j: "spatial_index ''bcyx'' 3 = 1"
    by (simp add: spatial_index_def spatial_def eval_nat_numeral)
  have lo: "0 \<le> tile_pos (dims ?A) [2, 2] [0, 1] 3 - [1, 1] ! spatial_index (dims ?A) 3"
    by (simp add: tile_pos_def j)
  have hi: "tile_pos (dims ?A) [2, 2] [0, 1] 3 + [2, 2] ! spatial_index (dims ?A) 3
               + [1, 1] ! spatial_index (dims ?A) 3 \<le> int (shape (array ?A) ! 3)"
    by (simp add: tile_pos_def j)
  have load: "load_tile ?A (outer_of (?tiles ! 1)) = Inr (?inp, [None, None, Some True, Some False])"
    unfolding idx by code_simp
  from interior_tile_no_padding[OF len d ts hs pos hal tiles k v i lo hi load]
  obtain p where p: "tile_padding ?ti ?ha (dims ?A) = Inr p"
    and n: "int (shape (array ?inp) ! 3) = [2, 2] ! spatial_index (dims ?A) 3
              + 2 * [1, 1] ! spatial_index (dims ?A) 3"
    and w: "\<And>s. \<exists>c. pad_axis ''fixed'' (targets p) (dims ?A ! 3, shape (array ?inp) ! 3, s)
                  = Inr ((0, 0), c)"
    by blast
  have "\<exists>c. pad_axis ''fixed'' (targets p) (CHR ''x'', 4, Some True) = Inr ((0, 0), c)"
    "\<exists>c. pad_axis ''fixed'' (targets p) (CHR ''x'', 4, Some False) = Inr ((0, 0), c)"
    using w[of "Some True"] w[of "Some False"] by simp_all
  moreover have "shape (array ?inp) ! 3 = 4" by simp
  ultimately show ?thesis using p load by auto
qed

subsection \<open>Floats that are computed without rounding\<close>

lemma floor_log2_le:
  assumes "0 < x"
  shows "2 powi floor_log2 x \<le> x"
proof -
  obtain p q where pq: "quotient_of x = (p, q)" by (cases "quotient_of x")
  have q: "0 < q" using quotient_of_denom_pos[OF pq] .
  have x: "x = of_int p / of_int q" using quotient_of_div[OF pq] .
  have p: "0 < p" using assms q unfolding x by (simp add: zero_less_divide_iff)
  let ?e = "bitlen p - bitlen q"
  show ?thesis
  proof (cases "2 powi ?e \<le> x")
    case True
    then show ?thesis by (simp add: floor_log2_def pq Let_def)
  next
    case False
    have bp: "1 \<le> bitlen p" using p bitlen_eq_zero_iff[of p] bitlen_nonneg[of p] by linarith
    have bq: "1 \<le> bitlen q" using q bitlen_eq_zero_iff[of q] bitlen_nonneg[of q] by linarith
    have "(2::int) ^ nat (bitlen p - 1) \<le> p" using bitlen_bounds[OF p] by simp
    then have "(of_int ((2::int) ^ nat (bitlen p - 1)) :: rat) \<le> of_int p"
      by (simp only: of_int_le_iff)
    then have lo: "(2::rat) powi (bitlen p - 1) \<le> of_int p"
      using bp by (simp add: power_int_def)
    have "q < (2::int) ^ nat (bitlen q)" using bitlen_bounds[OF q] by simp
    then have "(of_int q :: rat) < of_int ((2::int) ^ nat (bitlen q))"
      by (simp only: of_int_less_iff)
    then have hi: "of_int q < (2::rat) powi bitlen q"
      using bq by (simp add: power_int_def)
    have "(2::rat) powi (?e - 1) = 2 powi (bitlen p - 1) / 2 powi bitlen q"
      by (simp add: power_int_diff)
    also have "\<dots> \<le> of_int p / 2 powi bitlen q"
      using lo by (simp add: divide_right_mono)
    also have "\<dots> \<le> of_int p / of_int q"
      using hi p q by (intro divide_left_mono) (simp_all add: less_imp_le)
    finally have "(2::rat) powi (?e - 1) \<le> x" unfolding x .
    then show ?thesis
      using False by (simp add: floor_log2_def pq Let_def)
  qed
qed

lemma round_half_even_of_int [simp]: "round_half_even (of_int z) = z"
  by (simp add: round_half_even_def)

lemma round_double_exact:
  assumes m: "\<bar>m\<bar> < 2 ^ 53" and k: "- 1074 \<le> k" "k \<le> 0"
  shows "round_double (of_int m * 2 powi k) = Finite (of_int m * 2 powi k)"
proof (cases "m = 0")
  case True
  then show ?thesis by (simp add: round_double_def)
next
  case False
  define x :: rat where "x = of_int m * 2 powi k"
  have x0: "x \<noteq> 0" using False by (simp add: x_def)
  have ax: "\<bar>x\<bar> = of_int \<bar>m\<bar> * 2 powi k" by (simp add: x_def abs_mult)
  define e where "e = max (floor_log2 \<bar>x\<bar>) (- 1022)"
  have "2 powi floor_log2 \<bar>x\<bar> \<le> \<bar>x\<bar>" using x0 by (intro floor_log2_le) simp
  also have "\<bar>x\<bar> < 2 ^ 53 * 2 powi k"
  proof -
    have "(of_int \<bar>m\<bar> :: rat) < of_int (2 ^ 53)" using m by (simp only: of_int_less_iff)
    then show ?thesis unfolding ax by (simp add: mult_strict_right_mono)
  qed
  also have "(2::rat) ^ 53 * 2 powi k = 2 powi (53 + k)"
    by (simp add: power_int_add)
  finally have lt: "(2::rat) powi floor_log2 \<bar>x\<bar> < 2 powi (53 + k)" .
  have "floor_log2 \<bar>x\<bar> < 53 + k"
  proof (rule ccontr)
    assume "\<not> floor_log2 \<bar>x\<bar> < 53 + k"
    then have "(2::rat) powi (53 + k) \<le> 2 powi floor_log2 \<bar>x\<bar>"
      by (intro power_int_increasing) simp_all
    with lt show False by simp
  qed
  then have ek: "e - 52 \<le> k" using k by (simp add: e_def)
  define d where "d = nat (k - (e - 52))"
  have kd: "k = (e - 52) + int d" using ek by (simp add: d_def)
  have quot: "\<bar>x\<bar> / 2 powi (e - 52) = of_int (\<bar>m\<bar> * 2 ^ d)"
    unfolding ax kd by (simp add: power_int_add)
  have r: "sgn x * of_int (round_half_even (\<bar>x\<bar> / 2 powi (e - 52))) * 2 powi (e - 52) = x"
  proof -
    have "sgn x * of_int (\<bar>m\<bar> * 2 ^ d) * 2 powi (e - 52) = sgn x * (of_int \<bar>m\<bar> * 2 powi k)"
      unfolding kd by (simp add: power_int_add)
    also have "\<dots> = sgn x * \<bar>x\<bar>" by (simp add: ax)
    also have "\<dots> = x" by (simp add: sgn_mult_abs)
    finally show ?thesis by (simp only: quot round_half_even_of_int)
  qed
  have small: "\<not> 1024 \<le> e" "e \<noteq> 1023"
    using ek k by simp_all
  show ?thesis
    using x0 small r unfolding x_def[symmetric]
    by (simp add: round_double_def Let_def e_def[symmetric])
qed

lemma float_of_int_exact:
  assumes "\<bar>n\<bar> < 2 ^ 53"
  shows "float_of_int n = Inr (Finite (of_int n))"
  using round_double_exact[OF assms, of 0] by (simp add: float_of_int_def)

lemma float_of_int_Finite:
  assumes "float_of_int n = Inr f"
  shows "\<exists>r. f = Finite r"
  using assms by (cases "round_double (of_int n)") (auto simp: float_of_int_def)

lemma implicit_extent_exact:
  assumes s: "s = Finite (of_int a / 2 ^ k)" and d: "d = Finite (of_int b / 2 ^ k)"
    and k: "k \<le> 1074" and bound: "\<bar>a\<bar> * int n + 2 * \<bar>b\<bar> < 2 ^ 53"
    and fn: "float_of_int (int n) = Inr fn"
  shows "float_to_int (float_add (float_mul s fn) (float_mul (Finite 2) d))
           = Inr (py_int (of_int (a * int n + 2 * b) / 2 ^ k))"
proof -
  define P :: rat where "P = 2 powi (- int k)"
  have P: "x / 2 ^ k = x * P" for x :: rat
    by (simp add: P_def power_int_minus field_simps)
  have kk: "- 1074 \<le> - int k" "- int k \<le> 0" using k by simp_all
  have ex: "round_double (of_int m * P) = Finite (of_int m * P)" if "\<bar>m\<bar> < 2 ^ 53" for m
    unfolding P_def using round_double_exact[OF that kk] .
  have an: "\<bar>a * int n\<bar> < 2 ^ 53" and b2: "\<bar>2 * b\<bar> < 2 ^ 53"
    and sum: "\<bar>a * int n + 2 * b\<bar> < 2 ^ 53"
  proof -
    have nn: "0 \<le> \<bar>a\<bar> * int n" by simp
    have e: "\<bar>a * int n\<bar> = \<bar>a\<bar> * int n" by (simp add: abs_mult)
    show "\<bar>a * int n\<bar> < 2 ^ 53" using bound unfolding e by linarith
    show "\<bar>2 * b\<bar> < 2 ^ 53" using bound nn by linarith
    have "\<bar>a * int n + 2 * b\<bar> \<le> \<bar>a * int n\<bar> + \<bar>2 * b\<bar>" by (rule abs_triangle_ineq)
    then show "\<bar>a * int n + 2 * b\<bar> < 2 ^ 53" using bound unfolding e by linarith
  qed
  have prod: "float_mul s fn = Finite (of_int (a * int n) * P)"
  proof (cases "a = 0")
    case True
    obtain r where "fn = Finite r" using float_of_int_Finite[OF fn] by blast
    then show ?thesis using True by (simp add: s round_double_def)
  next
    case False
    then have "1 \<le> \<bar>a\<bar>" by simp
    then have "int n \<le> \<bar>a\<bar> * int n" by (simp add: mult_le_cancel_right1)
    then have "\<bar>int n\<bar> < 2 ^ 53" using bound by simp
    from float_of_int_exact[OF this] fn have "fn = Finite (of_int (int n))" by simp
    then have "float_mul s fn = round_double (of_int (a * int n) * P)"
      by (simp add: s P mult_ac)
    then show ?thesis using ex[OF an] by simp
  qed
  have two: "float_mul (Finite 2) d = Finite (of_int (2 * b) * P)"
  proof -
    have "float_mul (Finite 2) d = round_double (of_int (2 * b) * P)"
      by (simp add: d P mult_ac)
    then show ?thesis using ex[OF b2] by simp
  qed
  have "float_add (float_mul s fn) (float_mul (Finite 2) d)
      = round_double (of_int (a * int n + 2 * b) * P)"
    unfolding prod two by (simp add: algebra_simps)
  then have "float_add (float_mul s fn) (float_mul (Finite 2) d)
      = Finite (of_int (a * int n + 2 * b) * P)"
    using ex[OF sum] by simp
  then show ?thesis by (simp add: float_to_int_def P)
qed

text \<open>
  Some values as Python computes them: \<^verbatim>\<open>int(0.29 * 100)\<close> is 28, \<^verbatim>\<open>int(0.7 * 10)\<close> is 7,
  \<^verbatim>\<open>int((1 / 3) * 3)\<close> is 1, \<^verbatim>\<open>0.1 + 0.2\<close> is not \<^verbatim>\<open>0.3\<close>, and \<^verbatim>\<open>float(2 ** 53 + 1)\<close> is
  \<^verbatim>\<open>2.0 ** 53\<close>.
\<close>

lemma float_rounding_examples:
  "float_to_int (float_mul (round_double (29 / 100)) (Finite 100)) = Inr 28"
  "float_to_int (float_mul (round_double (7 / 10)) (Finite 10)) = Inr 7"
  "float_to_int (float_mul (round_double (1 / 3)) (Finite 3)) = Inr 1"
  "float_add (round_double (1 / 10)) (round_double (2 / 10)) = Finite (1351079888211149 / 4503599627370496)"
  "round_double (3 / 10) = Finite (5404319552844595 / 18014398509481984)"
  "float_of_int 9007199254740993 = Inr (Finite 9007199254740992)"
  by code_simp+

subsection \<open>The output buffers of the tiled prediction\<close>

lemma bind_Inr_E:
  assumes "bind m f = Inr y"
  obtains x where "m = Inr x" and "f x = Inr y"
  using assms by (cases m) auto

lemma nd_setitem_Inr_D:
  assumes "nd_setitem a key v = Inr a'" and "length key = length (shape a)"
  shows "shape a' = shape a" and "dtype a' = dtype a"
    and "\<And>idx. idx \<in> set (indices (shape a)) \<Longrightarrow>
           \<not> in_region (map2 slice_offset key (shape a)) (map2 slice_length key (shape a)) idx \<Longrightarrow>
           item a' idx = item a idx"
proof -
  have a': "a' = tabulate (shape a) (dtype a)
       (\<lambda>idx. if in_region (map2 slice_offset key (shape a)) (map2 slice_length key (shape a)) idx
          then item v (broadcast_index (shape v) (map2 (-) idx (map2 slice_offset key (shape a))))
          else item a idx)"
    using assms by (auto simp: nd_setitem_def full_key_def Let_def split: if_splits)
  show "shape a' = shape a" "dtype a' = dtype a" by (simp_all add: a')
  show "item a' idx = item a idx"
    if "idx \<in> set (indices (shape a))"
      "\<not> in_region (map2 slice_offset key (shape a)) (map2 slice_length key (shape a)) idx" for idx
    using that by (simp add: a' item_tabulate)
qed

lemma xr_setitem_Inr_D:
  assumes "xr_setitem da d v = Inr da'" and "length (dims da) = length (shape (array da))"
  shows "dims da' = dims da" and "shape (array da') = shape (array da)"
    and "dtype (array da') = dtype (array da)"
    and "\<And>idx. idx \<in> set (indices (shape (array da))) \<Longrightarrow>
           \<not> in_region (map2 slice_offset (key_of_dict d (dims da)) (shape (array da)))
                (map2 slice_length (key_of_dict d (dims da)) (shape (array da))) idx \<Longrightarrow>
           item (array da') idx = item (array da) idx"
proof -
  from assms(1) obtain a' where
    a': "nd_setitem (array da) (key_of_dict d (dims da)) (array v) = Inr a'"
    and da': "da' = da\<lparr>array := a'\<rparr>"
    by (auto simp: xr_setitem_def split: if_splits elim!: bind_Inr_E)
  have l: "length (key_of_dict d (dims da)) = length (shape (array da))"
    using assms(2) by simp
  note D = nd_setitem_Inr_D[OF a' l]
  show "dims da' = dims da" by (simp add: da')
  show "shape (array da') = shape (array da)" using D(1) by (simp add: da')
  show "dtype (array da') = dtype (array da)" using D(2) by (simp add: da')
  show "item (array da') idx = item (array da) idx"
    if "idx \<in> set (indices (shape (array da)))"
      "\<not> in_region (map2 slice_offset (key_of_dict d (dims da)) (shape (array da)))
                (map2 slice_length (key_of_dict d (dims da)) (shape (array da))) idx" for idx
    using D(3)[OF that] by (simp add: da')
qed

lemma tile_step_Inr_D:
  assumes "tile_step pp input' p output t = Inr output'"
  shows "\<exists>v. xr_setitem output (inner_of t) v = Inr output'"
  using assms
  by (cases t) (auto simp: tile_step_def inner_of_def split: if_splits elim!: bind_Inr_E)

lemma tile_loop_Inr_D:
  assumes "tile_loop pp input' p buf tiles = Inr out"
    and "length (dims buf) = length (shape (array buf))"
  shows "dims out = dims buf \<and> shape (array out) = shape (array buf) \<and>
         dtype (array out) = dtype (array buf) \<and>
         (\<forall>idx\<in>set (indices (shape (array buf))).
            (\<forall>t\<in>set tiles. \<not> written (dims buf) (shape (array buf)) t idx) \<longrightarrow>
            item (array out) idx = item (array buf) idx)"
  using assms
proof (induction tiles arbitrary: buf)
  case Nil
  then show ?case by simp
next
  case (Cons t ts)
  from Cons.prems(1) obtain buf' where
    s: "tile_step pp input' p buf t = Inr buf'"
    and r: "tile_loop pp input' p buf' ts = Inr out"
    by (auto elim!: bind_Inr_E)
  from tile_step_Inr_D[OF s] obtain v where v: "xr_setitem buf (inner_of t) v = Inr buf'"
    by blast
  note D = xr_setitem_Inr_D[OF v Cons.prems(2)]
  have l': "length (dims buf') = length (shape (array buf'))"
    using D(1,2) Cons.prems(2) by simp
  note IH = Cons.IH[OF r l']
  show ?case
  proof (intro conjI ballI impI)
    show "dims out = dims buf" using IH D(1) by simp
    show "shape (array out) = shape (array buf)" using IH D(2) by simp
    show "dtype (array out) = dtype (array buf)" using IH D(3) by simp
    fix idx
    assume idx: "idx \<in> set (indices (shape (array buf)))"
      and nw: "\<forall>t\<in>set (t # ts). \<not> written (dims buf) (shape (array buf)) t idx"
    have "item (array out) idx = item (array buf') idx"
      using IH idx nw D(1,2) by simp
    also have "\<dots> = item (array buf) idx"
      using D(4)[OF idx] nw by (simp add: written_def)
    finally show "item (array out) idx = item (array buf) idx" .
  qed
qed

lemma np_zeros_Inr_D:
  assumes "np_zeros sh dt = Inr (z :: ('a::zero) ndarray)"
  shows "map int (shape z) = sh" and "dtype z = dt"
    and "data z = replicate (prod_list (shape z)) 0"
proof -
  have nn: "\<forall>n\<in>set sh. 0 \<le> n" and z: "z = tabulate (map nat sh) dt (\<lambda>idx. 0)"
    using assms by (auto simp: np_zeros_def list_ex_iff split: if_splits)
  show "map int (shape z) = sh" using nn by (simp add: z map_idI)
  show "dtype z = dt" by (simp add: z)
  show "data z = replicate (prod_list (shape z)) 0"
    by (simp add: z tabulate_def map_replicate_const length_indices)
qed

lemma allocate_output_Inr_D:
  assumes "allocate_output ni ospec = Inr (buf :: ('a::zero) DataArray)"
  shows "dims buf = out_axes ospec" and "dtype (array buf) = out_data_type ospec"
    and "length (shape (array buf)) = length (out_axes ospec)"
    and "data (array buf) = replicate (prod_list (shape (array buf))) 0"
    and "\<And>l. out_shape ospec = OutputShape l \<Longrightarrow> map int (shape (array buf)) = l"
    and "\<And>ref sc off. out_shape ospec = ImplicitOutputShape ref sc off \<Longrightarrow>
           \<exists>ref_input. map_of ni ref = Some ref_input \<and>
             (\<forall>j<length (out_axes ospec). \<exists>s n fn d.
                (Map.empty(out_axes ospec [\<mapsto>] sc)) (out_axes ospec ! j) = Some s \<and>
                (Map.empty(dims ref_input [\<mapsto>] shape (array ref_input))) (out_axes ospec ! j) = Some n \<and>
                float_of_int (int n) = Inr fn \<and>
                (Map.empty(out_axes ospec [\<mapsto>] off)) (out_axes ospec ! j) = Some d \<and>
                float_to_int (float_add (float_mul s fn) (float_mul (Finite 2) d))
                  = Inr (int (shape (array buf) ! j)) \<and>
                (spatial (out_axes ospec ! j) \<longrightarrow> s = Finite 1 \<and> d = Finite 0))"
proof -
  from assms obtain output_shape z where
    os: "(case out_shape ospec of
             ImplicitOutputShape reference_tensor sc off \<Rightarrow>
               (let scale = Map.empty(out_axes ospec [\<mapsto>] sc);
                    offset = Map.empty(out_axes ospec [\<mapsto>] off)
                in if list_ex (\<lambda>ax. spatial ax \<and> scale ax \<noteq> None \<and> scale ax \<noteq> Some (Finite 1))
                        (out_axes ospec)
                      \<or> list_ex (\<lambda>ax. spatial ax \<and> offset ax \<noteq> None \<and> offset ax \<noteq> Some (Finite 0))
                           (out_axes ospec)
                   then Inl NotImplementedError
                   else bind (getitem (map_of ni) reference_tensor) (\<lambda>ref_input.
                     let ref_input_shape = Map.empty(dims ref_input [\<mapsto>] shape (array ref_input))
                     in mapM (\<lambda>ax. bind (getitem scale ax) (\<lambda>s.
                                    bind (getitem ref_input_shape ax) (\<lambda>n.
                                    bind (float_of_int (int n)) (\<lambda>fn.
                                    bind (getitem offset ax) (\<lambda>d.
                                    float_to_int (float_add (float_mul s fn) (float_mul (Finite 2) d)))))))
                          (out_axes ospec)))
           | OutputShape l \<Rightarrow> Inr l) = Inr output_shape"
    and z: "np_zeros output_shape (out_data_type ospec) = Inr z"
    and b: "DataArray z (out_axes ospec) = Inr buf"
    unfolding allocate_output_def by (auto elim!: bind_Inr_E)
  have buf: "buf = \<lparr>dims = out_axes ospec, array = z\<rparr>"
    and l: "length (out_axes ospec) = length (shape z)"
    using b by (auto simp: DataArray_def split: if_splits)
  note Z = np_zeros_Inr_D[OF z]
  show "dims buf = out_axes ospec" by (simp add: buf)
  show "dtype (array buf) = out_data_type ospec" using Z(2) by (simp add: buf)
  show "length (shape (array buf)) = length (out_axes ospec)" using l by (simp add: buf)
  show "data (array buf) = replicate (prod_list (shape (array buf))) 0"
    using Z(3) by (simp add: buf)
  show "map int (shape (array buf)) = l" if "out_shape ospec = OutputShape l" for l
    using os that Z(1) by (simp add: buf)
  show "\<exists>ref_input. map_of ni ref = Some ref_input \<and>
             (\<forall>j<length (out_axes ospec). \<exists>s n fn d.
                (Map.empty(out_axes ospec [\<mapsto>] sc)) (out_axes ospec ! j) = Some s \<and>
                (Map.empty(dims ref_input [\<mapsto>] shape (array ref_input))) (out_axes ospec ! j) = Some n \<and>
                float_of_int (int n) = Inr fn \<and>
                (Map.empty(out_axes ospec [\<mapsto>] off)) (out_axes ospec ! j) = Some d \<and>
                float_to_int (float_add (float_mul s fn) (float_mul (Finite 2) d))
                  = Inr (int (shape (array buf) ! j)) \<and>
                (spatial (out_axes ospec ! j) \<longrightarrow> s = Finite 1 \<and> d = Finite 0))"
    if "out_shape ospec = ImplicitOutputShape ref sc off" for ref sc off
  proof -
    from os that have
      g1: "\<not> list_ex (\<lambda>ax. spatial ax \<and> (Map.empty(out_axes ospec [\<mapsto>] sc)) ax \<noteq> None
                \<and> (Map.empty(out_axes ospec [\<mapsto>] sc)) ax \<noteq> Some (Finite 1)) (out_axes ospec)"
      and g2: "\<not> list_ex (\<lambda>ax. spatial ax \<and> (Map.empty(out_axes ospec [\<mapsto>] off)) ax \<noteq> None
                \<and> (Map.empty(out_axes ospec [\<mapsto>] off)) ax \<noteq> Some (Finite 0)) (out_axes ospec)"
      by (auto simp: Let_def split: if_splits)
    from os that obtain ref_input where
      r: "getitem (map_of ni) ref = Inr ref_input"
      and m: "mapM (\<lambda>ax. bind (getitem (Map.empty(out_axes ospec [\<mapsto>] sc)) ax) (\<lambda>s.
                                    bind (getitem (Map.empty(dims ref_input [\<mapsto>] shape (array ref_input))) ax) (\<lambda>n.
                                    bind (float_of_int (int n)) (\<lambda>fn.
                                    bind (getitem (Map.empty(out_axes ospec [\<mapsto>] off)) ax) (\<lambda>d.
                                    float_to_int (float_add (float_mul s fn) (float_mul (Finite 2) d)))))))
                 (out_axes ospec) = Inr output_shape"
      by (auto simp: Let_def split: if_splits elim!: bind_Inr_E)
    have ref: "map_of ni ref = Some ref_input"
      using r by (auto simp: getitem_def split: option.splits)
    have "\<exists>s n fn d.
                (Map.empty(out_axes ospec [\<mapsto>] sc)) (out_axes ospec ! j) = Some s \<and>
                (Map.empty(dims ref_input [\<mapsto>] shape (array ref_input))) (out_axes ospec ! j) = Some n \<and>
                float_of_int (int n) = Inr fn \<and>
                (Map.empty(out_axes ospec [\<mapsto>] off)) (out_axes ospec ! j) = Some d \<and>
                float_to_int (float_add (float_mul s fn) (float_mul (Finite 2) d))
                  = Inr (int (shape (array buf) ! j)) \<and>
                (spatial (out_axes ospec ! j) \<longrightarrow> s = Finite 1 \<and> d = Finite 0)"
      if j: "j < length (out_axes ospec)" for j
    proof -
      from m have la: "list_all2 (\<lambda>ax y. (\<lambda>ax. bind (getitem (Map.empty(out_axes ospec [\<mapsto>] sc)) ax) (\<lambda>s.
                                    bind (getitem (Map.empty(dims ref_input [\<mapsto>] shape (array ref_input))) ax) (\<lambda>n.
                                    bind (float_of_int (int n)) (\<lambda>fn.
                                    bind (getitem (Map.empty(out_axes ospec [\<mapsto>] off)) ax) (\<lambda>d.
                                    float_to_int (float_add (float_mul s fn) (float_mul (Finite 2) d))))))) ax = Inr y)
            (out_axes ospec) output_shape"
        by (simp add: mapM_Inr_iff)
      from list_all2_nthD[OF la j] obtain s n fn d where
        s: "getitem (Map.empty(out_axes ospec [\<mapsto>] sc)) (out_axes ospec ! j) = Inr s"
        and n: "getitem (Map.empty(dims ref_input [\<mapsto>] shape (array ref_input))) (out_axes ospec ! j) = Inr n"
        and fn: "float_of_int (int n) = Inr fn"
        and d: "getitem (Map.empty(out_axes ospec [\<mapsto>] off)) (out_axes ospec ! j) = Inr d"
        and e: "float_to_int (float_add (float_mul s fn) (float_mul (Finite 2) d)) = Inr (output_shape ! j)"
        by (auto elim!: bind_Inr_E)
      have s': "(Map.empty(out_axes ospec [\<mapsto>] sc)) (out_axes ospec ! j) = Some s"
        and n': "(Map.empty(dims ref_input [\<mapsto>] shape (array ref_input))) (out_axes ospec ! j) = Some n"
        and d': "(Map.empty(out_axes ospec [\<mapsto>] off)) (out_axes ospec ! j) = Some d"
        using s n d by (auto simp: getitem_def split: option.splits)
      have mem: "out_axes ospec ! j \<in> set (out_axes ospec)" using j by simp
      have sp: "s = Finite 1 \<and> d = Finite 0" if "spatial (out_axes ospec ! j)"
        using g1 g2 mem that s' d' unfolding list_ex_iff by auto
      have "int (shape (array buf) ! j) = output_shape ! j"
      proof -
        have "j < length (shape z)" using j l by simp
        then have "map int (shape z) ! j = int (shape z ! j)" by (rule nth_map)
        then show ?thesis using Z(1) by (simp add: buf)
      qed
      then show ?thesis using s' n' d' fn e sp by auto
    qed
    with ref show ?thesis by blast
  qed
qed

lemma check_tiling_Inr_D:
  assumes "check_tiling axes t = Inr d"
  shows "\<exists>ha ti. halo d = Some ha \<and> tile d = Some ti"
  using assms by (auto simp: check_tiling_def split: option.splits if_splits)

lemma parse_tiling_Some_D:
  assumes "parse_tiling t ispecs ospecs = Inr (Some d)"
  shows "\<exists>ispec ospec ha ti. ispecs = [ispec] \<and> ospecs = [ospec] \<and>
           halo d = Some ha \<and> tile d = Some ti"
proof -
  have t: "t \<noteq> Unset" using assms by (auto simp: parse_tiling_def)
  have l: "\<not> 1 < length ispecs" "\<not> 1 < length ospecs"
    using assms t by (auto simp: parse_tiling_def split: setting.splits if_splits)
  obtain ispec ospec where io: "ispecs = [ispec]" "ospecs = [ospec]"
  proof (cases ispecs)
    case Nil
    then show ?thesis
      using assms t by (auto simp: parse_tiling_def split: setting.splits if_splits)
  next
    case i: (Cons ispec irest)
    show ?thesis
    proof (cases ospecs)
      case Nil
      then show ?thesis
        using assms t i by (auto simp: parse_tiling_def split: setting.splits if_splits)
    next
      case (Cons ospec orest)
      then show ?thesis using that i l by simp
    qed
  qed
  have "\<exists>axes t'. check_tiling axes t' = Inr d"
    using assms t unfolding io parse_tiling_def
    by (auto simp: Let_def split: setting.splits if_splits option.splits bool.splits elim!: bind_Inr_E)
  then show ?thesis using check_tiling_Inr_D io by blast
qed

lemma len_inputs_one:
  assumes "len_inputs ins = Inr (Suc 0)" and "input_specs pp = [ispec]"
    and "mapM (\<lambda>(ipt_data, ipt_spec).
                    bind (DataArray (array ipt_data) (in_axes ipt_spec)) (\<lambda>da.
                    Inr (in_name ipt_spec, da)))
                  (zip (as_list ins) (input_specs pp)) = Inr kvs"
  shows "\<exists>i0. as_list ins = [i0] \<and> length (in_axes ispec) = length (shape (array i0)) \<and>
           kvs = [(in_name ispec, \<lparr>dims = in_axes ispec, array = array i0\<rparr>)]"
proof -
  obtain i0 where i0: "as_list ins = [i0]"
    using assms(1)
    by (cases ins) (auto simp: len_inputs_def as_list_def length_Suc_conv)
  show ?thesis
    using assms(3) unfolding i0 assms(2)
    by (auto simp: DataArray_def split: if_splits elim!: bind_Inr_E)
qed

lemma predict_with_tiling_impl_Inr_D:
  assumes "predict_with_tiling_impl pp [input'] [buf] [ti] [ha] = Inr outs"
  shows "\<exists>p tiles out. tile_padding ti ha (dims input') = Inr p \<and>
           get_tiling (map int (shape (array input'))) ti ha (dims input') = Inr tiles \<and>
           tile_loop pp input' p buf tiles = Inr out \<and> outs = [out]"
  using assms by (auto simp: predict_with_tiling_impl_def elim!: bind_Inr_E)

text \<open>
  Claim C10. When \<open>predict_with_tiling\<close> is called without output buffers and returns, the
  pipeline has one input and one output description, and the function has allocated one
  buffer for the output description: its axis labels and element type are those of the
  description and all its elements are zero. Its shape is the shape of the description;
  for an implicit output shape its extent on every axis is
  \<^verbatim>\<open>int(scale * extent of the reference input + 2 * offset)\<close> as floating-point arithmetic
  gives it, with scale 1 and offset 0 on the spatial axes. This is the exact value of
  \<open>scale * extent + 2 * offset\<close>, cut to an integer, whenever scale and offset are integers
  or fractions with a power of two as denominator and the numbers stay below \<open>2 ^ 53\<close>.
  The tile loop runs on this buffer, and the function returns the buffer after the loop:
  with the labels, the shape and the element type unchanged, and with every element that
  lies in the inner window of no tile still zero.
\<close>

theorem predict_with_tiling_allocates:
  fixes pp :: "('a::zero) PredictionPipeline"
  assumes "predict_with_tiling pp ins t None = Inr outs"
  shows "\<exists>ispec ospec i0 d ti ha p tiles buf out.
     input_specs pp = [ispec] \<and> output_specs pp = [ospec] \<and> as_list ins = [i0] \<and>
     allocate_output [(in_name ispec, \<lparr>dims = in_axes ispec, array = array i0\<rparr>)] ospec = Inr buf \<and>
     dims buf = out_axes ospec \<and> dtype (array buf) = out_data_type ospec \<and>
     length (shape (array buf)) = length (out_axes ospec) \<and>
     data (array buf) = replicate (prod_list (shape (array buf))) 0 \<and>
     (\<forall>l. out_shape ospec = OutputShape l \<longrightarrow> map int (shape (array buf)) = l) \<and>
     (\<forall>ref sc off. out_shape ospec = ImplicitOutputShape ref sc off \<longrightarrow>
        ref = in_name ispec \<and>
        (\<forall>j<length (out_axes ospec). \<exists>s n fn d.
           (Map.empty(out_axes ospec [\<mapsto>] sc)) (out_axes ospec ! j) = Some s \<and>
           (Map.empty(in_axes ispec [\<mapsto>] shape (array i0))) (out_axes ospec ! j) = Some n \<and>
           float_of_int (int n) = Inr fn \<and>
           (Map.empty(out_axes ospec [\<mapsto>] off)) (out_axes ospec ! j) = Some d \<and>
           float_to_int (float_add (float_mul s fn) (float_mul (Finite 2) d))
             = Inr (int (shape (array buf) ! j)) \<and>
           (spatial (out_axes ospec ! j) \<longrightarrow> s = Finite 1 \<and> d = Finite 0) \<and>
           (\<forall>a b k. s = Finite (of_int a / 2 ^ k) \<and> d = Finite (of_int b / 2 ^ k) \<and>
                    k \<le> 1074 \<and> \<bar>a\<bar> * int n + 2 * \<bar>b\<bar> < 2 ^ 53 \<longrightarrow>
              int (shape (array buf) ! j) = py_int (of_int (a * int n + 2 * b) / 2 ^ k)))) \<and>
     parse_tiling t [ispec] [ospec] = Inr (Some d) \<and> tile d = Some ti \<and> halo d = Some ha \<and>
     tile_padding ti ha (in_axes ispec) = Inr p \<and>
     get_tiling (map int (shape (array i0))) ti ha (in_axes ispec) = Inr tiles \<and>
     tile_loop pp \<lparr>dims = in_axes ispec, array = array i0\<rparr> p buf tiles = Inr out \<and>
     outs = [out] \<and>
     dims out = dims buf \<and> shape (array out) = shape (array buf) \<and>
     dtype (array out) = dtype (array buf) \<and>
     (\<forall>idx\<in>set (indices (shape (array buf))).
        (\<forall>t\<in>set tiles. \<not> written (dims buf) (shape (array buf)) t idx) \<longrightarrow>
        item (array out) idx = 0)"
proof -
  from assms obtain n d kvs bufs where
    n: "len_inputs ins = Inr n" "n = length (input_specs pp)"
    and d: "parse_tiling t (input_specs pp) (output_specs pp) = Inr (Some d)"
    and kvs: "mapM (\<lambda>(ipt_data, ipt_spec).
                    bind (DataArray (array ipt_data) (in_axes ipt_spec)) (\<lambda>da.
                    Inr (in_name ipt_spec, da)))
                  (zip (as_list ins) (input_specs pp)) = Inr kvs"
    and bufs: "mapM (allocate_output (foldl (\<lambda>d (k, v). od_set d k v) [] kvs)) (output_specs pp)
                 = Inr bufs"
    and run: "(case (tile d, halo d) of
                  (Some ti, Some ha) \<Rightarrow>
                    predict_with_tiling_impl pp
                      (map snd (foldl (\<lambda>d (k, v). od_set d k v) [] kvs)) bufs [ti] [ha]
                | _ \<Rightarrow> Inl KeyError) = Inr outs"
    unfolding predict_with_tiling_def
    by (auto simp: Let_def split: if_splits option.splits elim!: bind_Inr_E)
  from parse_tiling_Some_D[OF d] obtain ispec ospec ha ti where
    io: "input_specs pp = [ispec]" "output_specs pp = [ospec]"
    and th: "halo d = Some ha" "tile d = Some ti"
    by blast
  have n1: "len_inputs ins = Inr (Suc 0)" using n io by simp
  from len_inputs_one[OF n1 io(1) kvs] obtain i0 where
    i0: "as_list ins = [i0]" and li: "length (in_axes ispec) = length (shape (array i0))"
    and kv: "kvs = [(in_name ispec, \<lparr>dims = in_axes ispec, array = array i0\<rparr>)]"
    by blast
  define input' where "input' = \<lparr>dims = in_axes ispec, array = array i0\<rparr>"
  have ni: "foldl (\<lambda>d (k, v). od_set d k v) [] kvs = [(in_name ispec, input')]"
    by (simp add: kv input'_def)
  from bufs obtain buf where buf: "allocate_output [(in_name ispec, input')] ospec = Inr buf"
    and bs: "bufs = [buf]"
    unfolding ni io by (auto elim!: bind_Inr_E)
  note A = allocate_output_Inr_D[OF buf]
  have "predict_with_tiling_impl pp [input'] [buf] [ti] [ha] = Inr outs"
    using run by (simp add: th ni bs)
  from predict_with_tiling_impl_Inr_D[OF this] obtain p tiles out where
    p: "tile_padding ti ha (dims input') = Inr p"
    and tiles: "get_tiling (map int (shape (array input'))) ti ha (dims input') = Inr tiles"
    and loop: "tile_loop pp input' p buf tiles = Inr out" and outs: "outs = [out]"
    by blast
  have lb: "length (dims buf) = length (shape (array buf))" using A(1,3) by simp
  note L = tile_loop_Inr_D[OF loop lb]
  have zero: "item (array buf) idx = 0" if "idx \<in> set (indices (shape (array buf)))" for idx
  proof -
    have "ravel (shape (array buf)) idx < prod_list (shape (array buf))"
      using that by (rule ravel_less)
    then show ?thesis using A(4) by (simp add: item_def)
  qed
  have imp: "ref = in_name ispec \<and>
        (\<forall>j<length (out_axes ospec). \<exists>s n fn d.
           (Map.empty(out_axes ospec [\<mapsto>] sc)) (out_axes ospec ! j) = Some s \<and>
           (Map.empty(in_axes ispec [\<mapsto>] shape (array i0))) (out_axes ospec ! j) = Some n \<and>
           float_of_int (int n) = Inr fn \<and>
           (Map.empty(out_axes ospec [\<mapsto>] off)) (out_axes ospec ! j) = Some d \<and>
           float_to_int (float_add (float_mul s fn) (float_mul (Finite 2) d))
             = Inr (int (shape (array buf) ! j)) \<and>
           (spatial (out_axes ospec ! j) \<longrightarrow> s = Finite 1 \<and> d = Finite 0) \<and>
           (\<forall>a b k. s = Finite (of_int a / 2 ^ k) \<and> d = Finite (of_int b / 2 ^ k) \<and>
                    k \<le> 1074 \<and> \<bar>a\<bar> * int n + 2 * \<bar>b\<bar> < 2 ^ 53 \<longrightarrow>
              int (shape (array buf) ! j) = py_int (of_int (a * int n + 2 * b) / 2 ^ k)))"
    if "out_shape ospec = ImplicitOutputShape ref sc off" for ref sc off
  proof -
    from A(6)[OF that] obtain ref_input where
      r: "map_of [(in_name ispec, input')] ref = Some ref_input"
      and s: "\<And>j. j < length (out_axes ospec) \<Longrightarrow> \<exists>s n fn d.
                (Map.empty(out_axes ospec [\<mapsto>] sc)) (out_axes ospec ! j) = Some s \<and>
                (Map.empty(dims ref_input [\<mapsto>] shape (array ref_input))) (out_axes ospec ! j) = Some n \<and>
                float_of_int (int n) = Inr fn \<and>
                (Map.empty(out_axes ospec [\<mapsto>] off)) (out_axes ospec ! j) = Some d \<and>
                float_to_int (float_add (float_mul s fn) (float_mul (Finite 2) d))
                  = Inr (int (shape (array buf) ! j)) \<and>
                (spatial (out_axes ospec ! j) \<longrightarrow> s = Finite 1 \<and> d = Finite 0)"
      by blast
    have ri: "ref = in_name ispec" "ref_input = input'"
      using r by (auto split: if_splits)
    have "\<exists>s n fn d.
           (Map.empty(out_axes ospec [\<mapsto>] sc)) (out_axes ospec ! j) = Some s \<and>
           (Map.empty(in_axes ispec [\<mapsto>] shape (array i0))) (out_axes ospec ! j) = Some n \<and>
           float_of_int (int n) = Inr fn \<and>
           (Map.empty(out_axes ospec [\<mapsto>] off)) (out_axes ospec ! j) = Some d \<and>
           float_to_int (float_add (float_mul s fn) (float_mul (Finite 2) d))
             = Inr (int (shape (array buf) ! j)) \<and>
           (spatial (out_axes ospec ! j) \<longrightarrow> s = Finite 1 \<and> d = Finite 0) \<and>
           (\<forall>a b k. s = Finite (of_int a / 2 ^ k) \<and> d = Finite (of_int b / 2 ^ k) \<and>
                    k \<le> 1074 \<and> \<bar>a\<bar> * int n + 2 * \<bar>b\<bar> < 2 ^ 53 \<longrightarrow>
              int (shape (array buf) ! j) = py_int (of_int (a * int n + 2 * b) / 2 ^ k))"
      if j: "j < length (out_axes ospec)" for j
    proof -
      from s[OF j] obtain s n fn d where
        f: "(Map.empty(out_axes ospec [\<mapsto>] sc)) (out_axes ospec ! j) = Some s"
          "(Map.empty(in_axes ispec [\<mapsto>] shape (array i0))) (out_axes ospec ! j) = Some n"
          "float_of_int (int n) = Inr fn"
          "(Map.empty(out_axes ospec [\<mapsto>] off)) (out_axes ospec ! j) = Some d"
          "float_to_int (float_add (float_mul s fn) (float_mul (Finite 2) d))
             = Inr (int (shape (array buf) ! j))"
          "spatial (out_axes ospec ! j) \<longrightarrow> s = Finite 1 \<and> d = Finite 0"
        unfolding ri input'_def by auto
      have "int (shape (array buf) ! j) = py_int (of_int (a * int n + 2 * b) / 2 ^ k)"
        if "s = Finite (of_int a / 2 ^ k)" "d = Finite (of_int b / 2 ^ k)" "k \<le> 1074"
          "\<bar>a\<bar> * int n + 2 * \<bar>b\<bar> < 2 ^ 53" for a b k
        using implicit_extent_exact[OF that f(3)] f(5) by simp
      with f show ?thesis by blast
    qed
    then show ?thesis using ri(1) by blast
  qed
  have "input_specs pp = [ispec] \<and> output_specs pp = [ospec] \<and> as_list ins = [i0]"
    using io i0 by simp
  moreover have "allocate_output [(in_name ispec, \<lparr>dims = in_axes ispec, array = array i0\<rparr>)] ospec
      = Inr buf"
    using buf by (simp add: input'_def)
  moreover have "parse_tiling t [ispec] [ospec] = Inr (Some d) \<and> tile d = Some ti \<and> halo d = Some ha"
    using d io th by simp
  moreover have "tile_padding ti ha (in_axes ispec) = Inr p"
    "get_tiling (map int (shape (array i0))) ti ha (in_axes ispec) = Inr tiles"
    "tile_loop pp \<lparr>dims = in_axes ispec, array = array i0\<rparr> p buf tiles = Inr out"
    using p tiles loop by (simp_all add: input'_def)
  moreover have "\<forall>idx\<in>set (indices (shape (array buf))).
        (\<forall>t\<in>set tiles. \<not> written (dims buf) (shape (array buf)) t idx) \<longrightarrow>
        item (array out) idx = 0"
    using L zero by simp
  ultimately show ?thesis
    using A(1-5) imp outs L by blast
qed

text \<open>
  A \<open>2 \<times> 4\<close> image and an output description with the explicit shape \<open>2 \<times> 5\<close>: the buffer is
  allocated with ten zeros, the two tiles fill the first four columns, and the elements
  of the last column, which no tile writes, are still zero in the result.
\<close>

theorem predict_with_tiling_allocates_example:
  "\<exists>out.
     predict_with_tiling
       \<lparr>input_specs = [\<lparr>in_name = ''raw'', in_axes = ''bcyx'', in_shape = InputShape [1, 1, 2, 4]\<rparr>],
        output_specs = [\<lparr>out_name = ''out'', out_axes = ''bcyx'', out_shape = OutputShape [1, 1, 2, 5],
                         out_halo = Some [0, 0, 1, 1], out_data_type = ''int64''\<rparr>],
        forward = (\<lambda>xs. xs)\<rparr>
       (Multiple [\<lparr>dims = ''bcyx'',
          array = \<lparr>shape = [1, 1, 2, 4], data = [1, 2, 3, 4, 5, 6, 7, 8 :: int], dtype = ''int64''\<rparr>\<rparr>])
       (Dict \<lparr>halo = Some [CHR ''y'' \<mapsto> 1, CHR ''x'' \<mapsto> 1], tile = Some [CHR ''y'' \<mapsto> 2, CHR ''x'' \<mapsto> 2]\<rparr>)
       None
     = Inr [out] \<and>
     dims out = ''bcyx'' \<and> shape (array out) = [1, 1, 2, 5] \<and> dtype (array out) = ''int64'' \<and>
     item (array out) [0, 0, 0, 4] = 0 \<and> item (array out) [0, 0, 1, 4] = 0 \<and>
     data (array out) = [1, 2, 3, 4, 0, 5, 6, 7, 8, 0]"
proof -
  let ?ispec = "\<lparr>in_name = ''raw'', in_axes = ''bcyx'', in_shape = InputShape [1, 1, 2, 4]\<rparr>"
  let ?ospec = "\<lparr>out_name = ''out'', out_axes = ''bcyx'', out_shape = OutputShape [1, 1, 2, 5],
                         out_halo = Some [0, 0, 1, 1], out_data_type = ''int64''\<rparr>"
  let ?pp = "\<lparr>input_specs = [?ispec], output_specs = [?ospec],
       forward = (\<lambda>xs :: int DataArray list. xs)\<rparr>"
  let ?i0 = "\<lparr>dims = ''bcyx'',
          array = \<lparr>shape = [1, 1, 2, 4], data = [1, 2, 3, 4, 5, 6, 7, 8 :: int], dtype = ''int64''\<rparr>\<rparr>"
  let ?D = "\<lparr>halo = Some [CHR ''y'' \<mapsto> 1, CHR ''x'' \<mapsto> 1], tile = Some [CHR ''y'' \<mapsto> 2, CHR ''x'' \<mapsto> 2]\<rparr>"
  let ?OUT = "\<lparr>dims = ''bcyx'',
        array = \<lparr>shape = [1, 1, 2, 5], data = [1, 2, 3, 4, 0, 5, 6, 7, 8, 0 :: int], dtype = ''int64''\<rparr>\<rparr>"
  have run: "predict_with_tiling ?pp (Multiple [?i0]) (Dict ?D) None = Inr [?OUT]"
    by code_simp
  from predict_with_tiling_allocates[OF run]
  obtain ispec ospec i0 d ti ha tiles and buf out :: "int DataArray" where
    io: "input_specs ?pp = [ispec]" "output_specs ?pp = [ospec]" "as_list (Multiple [?i0]) = [i0]"
    and dims: "dims buf = out_axes ospec" and dt: "dtype (array buf) = out_data_type ospec"
    and sh: "\<forall>l. out_shape ospec = OutputShape l \<longrightarrow> map int (shape (array buf)) = l"
    and d: "parse_tiling (Dict ?D) [ispec] [ospec] = Inr (Some d)" "tile d = Some ti" "halo d = Some ha"
    and tiles: "get_tiling (map int (shape (array i0))) ti ha (in_axes ispec) = Inr tiles"
    and out: "[?OUT] = [out]" "dims out = dims buf" "shape (array out) = shape (array buf)"
      "dtype (array out) = dtype (array buf)"
    and zero: "\<forall>idx\<in>set (indices (shape (array buf))).
        (\<forall>t\<in>set tiles. \<not> written (dims buf) (shape (array buf)) t idx) \<longrightarrow>
        item (array out) idx = 0"
    by blast
  have ispec: "ispec = ?ispec" and ospec: "ospec = ?ospec" and i0: "i0 = ?i0"
    using io by (simp_all add: as_list_def)
  have "map int (shape (array buf)) = [1, 1, 2, 5]" using sh by (simp add: ospec)
  then have "map nat (map int (shape (array buf))) = map nat [1, 1, 2, 5]" by (rule arg_cong)
  then have shb: "shape (array buf) = [1, 1, 2, 5]" by (simp add: comp_def)
  have "d = ?D"
    using d(1) by (simp add: ispec ospec parse_tiling_def check_tiling_def get0_def spatial_def)
  then have ti: "ti = [CHR ''y'' \<mapsto> 2, CHR ''x'' \<mapsto> 2]" and ha: "ha = [CHR ''y'' \<mapsto> 1, CHR ''x'' \<mapsto> 1]"
    using d(2,3) by simp_all
  have "get_tiling [1, 1, 2, 4] [CHR ''y'' \<mapsto> 2, CHR ''x'' \<mapsto> 2] [CHR ''y'' \<mapsto> 1, CHR ''x'' \<mapsto> 1] ''bcyx''
      = Inr (map (make_tile ''yx'' [2, 4] [2, 2] [1, 1]) [[0, 0], [0, 1]])"
    by code_simp
  then have tl: "tiles = map (make_tile ''yx'' [2, 4] [2, 2] [1, 1]) [[0, 0], [0, 1]]"
    using tiles by (simp add: i0 ispec ti ha)
  have nw: "\<not> written ''bcyx'' [1, 1, 2, 5] (make_tile ''yx'' [2, 4] [2, 2] [1, 1] [0, 0]) [0, 0, k, 4]"
    "\<not> written ''bcyx'' [1, 1, 2, 5] (make_tile ''yx'' [2, 4] [2, 2] [1, 1] [0, 1]) [0, 0, k, 4]" for k
    by (simp_all add: written_def make_tile_def inner_of_def key_of_dict_def in_region_def
        slice_offset_def slice_length_def slice_start_def slice_stop_def)
  have "[0, 0, 0, 4] \<in> set (indices [1, 1, 2, 5])" "[0, 0, 1, 4] \<in> set (indices [1, 1, 2, 5])"
    by (simp_all add: indices_iff less_Suc_eq eval_nat_numeral)
  then have "item (array out) [0, 0, 0, 4] = 0" "item (array out) [0, 0, 1, 4] = 0"
    using zero nw by (simp_all add: shb dims ospec tl)
  moreover have "dims out = ''bcyx''" "shape (array out) = [1, 1, 2, 5]" "dtype (array out) = ''int64''"
    using out dims dt shb by (simp_all add: ospec)
  moreover have "data (array out) = [1, 2, 3, 4, 0, 5, 6, 7, 8, 0]" using out(1) by auto
  moreover have "predict_with_tiling ?pp (Multiple [?i0]) (Dict ?D) None = Inr [out]"
    by (simp only: run out(1))
  ultimately show ?thesis by blast
qed

text \<open>
  Implicit output shapes. With the scale \<^verbatim>\<open>1 / 3\<close> on the channel axis, three channels of the
  input give one channel (the product of the float with 3 rounds to 1); with the scale
  \<^verbatim>\<open>0.29\<close>, a hundred channels give 28 (the product rounds to a float below 29); with the
  scale 2 and the offset \<^verbatim>\<open>0.5\<close>, one channel gives three.
\<close>

lemma allocate_output_implicit_examples:
  "allocate_output
     [(''raw'', \<lparr>dims = ''bcyx'',
         array = \<lparr>shape = [1, 3, 2, 2], data = [1, 2, 3, 4, 5, 6, 7, 8, 9, 10, 11, 12 :: int],
                  dtype = ''int64''\<rparr>\<rparr>)]
     \<lparr>out_name = ''out'', out_axes = ''bcyx'',
      out_shape = ImplicitOutputShape ''raw'' [Finite 1, round_double (1 / 3), Finite 1, Finite 1]
                    [Finite 0, Finite 0, Finite 0, Finite 0],
      out_halo = Some [0, 0, 1, 1], out_data_type = ''int64''\<rparr>
   = Inr \<lparr>dims = ''bcyx'',
       array = \<lparr>shape = [1, 1, 2, 2], data = [0, 0, 0, 0 :: int], dtype = ''int64''\<rparr>\<rparr>"
  "allocate_output
     [(''raw'', \<lparr>dims = ''bc'',
         array = \<lparr>shape = [1, 100], data = replicate 100 (1 :: int), dtype = ''int64''\<rparr>\<rparr>)]
     \<lparr>out_name = ''out'', out_axes = ''bc'',
      out_shape = ImplicitOutputShape ''raw'' [Finite 1, round_double (29 / 100)] [Finite 0, Finite 0],
      out_halo = None, out_data_type = ''int64''\<rparr>
   = Inr \<lparr>dims = ''bc'',
       array = \<lparr>shape = [1, 28], data = replicate 28 (0 :: int), dtype = ''int64''\<rparr>\<rparr>"
  "allocate_output
     [(''raw'', \<lparr>dims = ''bcyx'',
         array = \<lparr>shape = [1, 1, 2, 4], data = [1, 2, 3, 4, 5, 6, 7, 8 :: int], dtype = ''int64''\<rparr>\<rparr>)]
     \<lparr>out_name = ''out'', out_axes = ''bcyx'',
      out_shape = ImplicitOutputShape ''raw'' [Finite 1, Finite 2, Finite 1, Finite 1]
                    [Finite 0, Finite (1 / 2), Finite 0, Finite 0],
      out_halo = Some [0, 0, 1, 1], out_data_type = ''int64''\<rparr>
   = Inr \<lparr>dims = ''bcyx'',
       array = \<lparr>shape = [1, 3, 2, 4], data = replicate 24 (0 :: int), dtype = ''int64''\<rparr>\<rparr>"
  by code_simp+

text \<open>
  A run with an implicit output shape: a predictor that returns the first of the three
  channels of its input, and the scale \<^verbatim>\<open>1 / 3\<close> on the channel axis. The buffer has one
  channel and is filled with the first channel of the input.
\<close>

lemma predict_with_tiling_implicit_example:
  "predict_with_tiling
     \<lparr>input_specs = [\<lparr>in_name = ''raw'', in_axes = ''bcyx'', in_shape = InputShape [1, 3, 2, 4]\<rparr>],
      output_specs = [\<lparr>out_name = ''out'', out_axes = ''bcyx'',
                       out_shape = ImplicitOutputShape ''raw''
                         [Finite 1, round_double (1 / 3), Finite 1, Finite 1]
                         [Finite 0, Finite 0, Finite 0, Finite 0],
                       out_halo = Some [0, 0, 1, 1], out_data_type = ''int64''\<rparr>],
      forward = map (\<lambda>x. x\<lparr>array :=
                   \<lparr>shape = [1, 1] @ drop 2 (shape (array x)),
                    data = take (prod_list (drop 2 (shape (array x)))) (data (array x)),
                    dtype = dtype (array x)\<rparr>\<rparr>)\<rparr>
     (Multiple [\<lparr>dims = ''bcyx'',
        array = \<lparr>shape = [1, 3, 2, 4],
                 data = [1, 2, 3, 4, 5, 6, 7, 8, 11, 12, 13, 14, 15, 16, 17, 18,
                         21, 22, 23, 24, 25, 26, 27, 28 :: int],
                 dtype = ''int64''\<rparr>\<rparr>])
     (Flag True)
     None
   = Inr [\<lparr>dims = ''bcyx'',
        array = \<lparr>shape = [1, 1, 2, 4], data = [1, 2, 3, 4, 5, 6, 7, 8], dtype = ''int64''\<rparr>\<rparr>]"
  by code_simp

end
